theory Spec2Isabelle
  imports Main "HOL-Library.Sublist" "HOL-Library.Word"
begin

section \<open>Errors\<close>

text \<open>
  The exceptions the three functions of \<^verbatim>\<open>farm/utils.py\<close> can raise.  A failing
  \<^verbatim>\<open>assert\<close> is \<open>AssertionError\<close>, a failing \<^verbatim>\<open>int(s, 16)\<close> is \<open>ValueError\<close>,
  a division or remainder by zero is \<open>ZeroDivisionError\<close>, a quotient of two integers too
  large for a float is \<open>OverflowError\<close>, and reading a local variable that was never
  assigned is \<open>UnboundLocalError\<close>.
\<close>

datatype error =
  AssertionError | ValueError | ZeroDivisionError | OverflowError | UnboundLocalError

section \<open>The chunk-size heuristic: \<^verbatim>\<open>calc_chunksize\<close>\<close>

subsection \<open>Double-precision floats\<close>

text \<open>
  The heuristic computes in floats.  \<^verbatim>\<open>num_dicts / num_cpus\<close> is Python's true division
  of two integers: the double nearest to the quotient, ties to even, and
  \<open>OverflowError\<close> when that is not finite.  \<^verbatim>\<open>np.ceil\<close> and the division by 5 work on
  doubles, and \<^verbatim>\<open>np.clip\<close> compares doubles.  Every finite double is an integer multiple
  of \<open>2\<^sup>-\<^sup>1\<^sup>0\<^sup>7\<^sup>4\<close>, so the magnitude of a double is modelled by that multiple, a natural
  number of units; the numbers the heuristic goes on with (a ceiling, a truncation) are
  integers again.

  \<open>bits n\<close> is the number of binary digits of \<open>n\<close>, and \<open>round_half_even p q\<close> is the
  integer nearest to \<open>p / q\<close>, the even one of two that are equally near.
  \<open>nearest_scaled e p a b\<close> is the float with \<open>p\<close> significant bits and least exponent
  \<open>-e\<close> that is nearest to \<open>a / b\<close>, in units of \<open>2\<^sup>-\<^sup>e\<close>: the quotient in units has
  \<open>bits (a * 2\<^sup>e div b)\<close> digits, and those beyond the first \<open>p\<close> are rounded away.
  A double has 53 significant bits and units of \<open>2\<^sup>-\<^sup>1\<^sup>0\<^sup>7\<^sup>4\<close>, and is finite below
  \<open>2\<^sup>1\<^sup>0\<^sup>2\<^sup>4\<close>.
\<close>

function bits :: "nat \<Rightarrow> nat" where
  "bits n = (if n = 0 then 0 else Suc (bits (n div 2)))"
  by pat_completeness auto
termination
  by (relation "measure id") auto

declare bits.simps [simp del]

definition round_half_even :: "nat \<Rightarrow> nat \<Rightarrow> nat" where
  "round_half_even p q =
     (let f = p div q; r = p mod q
      in if 2 * r < q then f else if q < 2 * r then f + 1 else if even f then f else f + 1)"

definition nearest_scaled :: "nat \<Rightarrow> nat \<Rightarrow> nat \<Rightarrow> nat \<Rightarrow> nat" where
  "nearest_scaled e p a b =
     (let t = bits (a * 2 ^ e div b) - p
      in round_half_even (a * 2 ^ e) (b * 2 ^ t) * 2 ^ t)"

definition double_unit :: nat where
  "double_unit = 2 ^ 1074"

definition double_limit :: nat where
  "double_limit = 2 ^ 1024 * double_unit"

definition nearest_double :: "nat \<Rightarrow> nat \<Rightarrow> nat" where
  "nearest_double a b = nearest_scaled 1074 53 a b"

subsection \<open>The arithmetic of the heuristic\<close>

text \<open>
  \<^verbatim>\<open>np.ceil(a / b)\<close> for an integer \<open>a\<close> and an integer \<open>b\<close>: the true division, then the
  ceiling of the double, which is an integer.  The function serves both for
  \<^verbatim>\<open>np.ceil(num_dicts / num_cpus)\<close> and for \<^verbatim>\<open>np.ceil(dicts_per_cpu / 5)\<close>, where
  \<^verbatim>\<open>dicts_per_cpu\<close> is a double with an integer value, so that dividing it by 5 rounds the
  quotient of two integers as well.
\<close>

definition py_ceil_div :: "int \<Rightarrow> int \<Rightarrow> error + int" where
  "py_ceil_div a b =
     (if b = 0 then Inl ZeroDivisionError
      else (let r = nearest_double (nat \<bar>a\<bar>) (nat \<bar>b\<bar>)
            in if double_limit \<le> r then Inl OverflowError
               else if (a < 0) = (b < 0) then Inr (int ((r + double_unit - 1) div double_unit))
               else Inr (- int (r div double_unit))))"

text \<open>\<^verbatim>\<open>int(a / b)\<close> for integers: the true division, truncated towards zero.\<close>

definition py_int_truediv :: "int \<Rightarrow> int \<Rightarrow> error + int" where
  "py_int_truediv a b =
     (if b = 0 then Inl ZeroDivisionError
      else (let r = nearest_double (nat \<bar>a\<bar>) (nat \<bar>b\<bar>)
            in if double_limit \<le> r then Inl OverflowError
               else if (a < 0) = (b < 0) then Inr (int (r div double_unit))
               else Inr (- int (r div double_unit))))"

text \<open>
  \<^verbatim>\<open>np.clip(x, a_min, a_max)\<close> is \<^verbatim>\<open>minimum(a_max, maximum(x, a_min))\<close>, computed in
  doubles, \<open>x\<close> being one.  The bounds \<^verbatim>\<open>min_chunksize\<close> and \<^verbatim>\<open>max_chunksize\<close> are
  integers that reach numpy as C longs, 64-bit signed integers, and are converted to
  the nearest double: \<open>float_of_long\<close> is the integer value of that double, which from
  \<open>2\<^sup>5\<^sup>3\<close> on need not be the integer converted.  The \<^verbatim>\<open>int(...)\<close> around the call is
  exact.
\<close>

definition float_of_long :: "64 word \<Rightarrow> int" where
  "float_of_long w =
     (let v = sint w; r = nearest_double (nat \<bar>v\<bar>) 1
      in if 0 \<le> v then int (r div double_unit) else - int (r div double_unit))"

definition np_clip :: "int \<Rightarrow> 64 word \<Rightarrow> 64 word \<Rightarrow> int" where
  "np_clip x a_min a_max = min (float_of_long a_max) (max x (float_of_long a_min))"

text \<open>
  The loop \<^verbatim>\<open>while num_dicts % multiprocessing_chunk_size == 1:
  multiprocessing_chunk_size -= -1\<close>, on Python integers.  Nothing bounds it in the
  source, so it is a partial function: \<open>None\<close> is the loop that never ends.  Python's
  \<^verbatim>\<open>%\<close> raises on a zero divisor and otherwise takes the sign of the divisor, as \<open>mod\<close>
  on \<open>int\<close> does.
\<close>

partial_function (option) chunk_loop :: "int \<Rightarrow> int \<Rightarrow> (error + int) option" where
  "chunk_loop num_dicts multiprocessing_chunk_size =
     (if multiprocessing_chunk_size = 0 then Some (Inl ZeroDivisionError)
      else if num_dicts mod multiprocessing_chunk_size = 1
        then chunk_loop num_dicts (multiprocessing_chunk_size + 1)
      else Some (Inr multiprocessing_chunk_size))"

text \<open>
  \<^verbatim>\<open>calc_chunksize(num_dicts, min_chunksize=4, max_chunksize=2000)\<close>.  The value of
  \<^verbatim>\<open>mp.cpu_count()\<close> is the parameter \<open>cpu_count\<close>.  The result is \<open>None\<close> when the
  loop does not end, \<open>Some (Inl e)\<close> when the call raises and
  \<open>Some (Inr (multiprocessing_chunk_size, num_cpus_used))\<close> when it returns.
\<close>

definition calc_chunksize ::
  "nat \<Rightarrow> int \<Rightarrow> 64 word \<Rightarrow> 64 word \<Rightarrow> (error + int \<times> int) option" where
  "calc_chunksize cpu_count num_dicts min_chunksize max_chunksize =
     (let num_cpus = (if cpu_count = 0 then 1 else int cpu_count)
      in case py_ceil_div num_dicts num_cpus of
           Inl e \<Rightarrow> Some (Inl e)
         | Inr dicts_per_cpu \<Rightarrow>
        (case py_ceil_div dicts_per_cpu 5 of
           Inl e \<Rightarrow> Some (Inl e)
         | Inr c \<Rightarrow>
        (case chunk_loop num_dicts (np_clip c min_chunksize max_chunksize) of
           None \<Rightarrow> None
         | Some (Inl e) \<Rightarrow> Some (Inl e)
         | Some (Inr multiprocessing_chunk_size) \<Rightarrow>
        (case py_int_truediv num_dicts multiprocessing_chunk_size of
           Inl e \<Rightarrow> Some (Inl e)
         | Inr dict_batches_to_process \<Rightarrow>
             (let m = min (int cpu_count) dict_batches_to_process
              in Some (Inr (multiprocessing_chunk_size, if m = 0 then 1 else m)))))))"

section \<open>Strings\<close>

text \<open>
  Python's \<^verbatim>\<open>p in s\<close> on strings (\<open>p\<close> occurs in \<open>s\<close> as a contiguous substring) and
  \<^verbatim>\<open>s.replace(p, "")\<close>, which deletes the occurrences of \<open>p\<close> found from left to right
  without looking again at what the deletion joins.  With an empty \<open>p\<close> the string is
  returned as it is.
\<close>

fun py_in :: "string \<Rightarrow> string \<Rightarrow> bool" where
  "py_in p [] = (p = [])"
| "py_in p (c # cs) = (prefix p (c # cs) \<or> py_in p cs)"

function py_remove :: "string \<Rightarrow> string \<Rightarrow> string" where
  "py_remove p [] = []"
| "py_remove p (c # cs) =
     (if p \<noteq> [] \<and> prefix p (c # cs) then py_remove p (drop (length p) (c # cs))
      else c # py_remove p cs)"
  by pat_completeness auto
termination
  by (relation "measure (\<lambda>(p, s). length s)") auto

text \<open>
  \<^verbatim>\<open>str.lower\<close> and \<^verbatim>\<open>str.upper\<close> on the ASCII letters; every other character is left
  as it is (the identifiers they are applied to below are made of hex digits).
\<close>

definition py_lower_char :: "char \<Rightarrow> char" where
  "py_lower_char c =
     (let k = (of_char c :: nat) in if 65 \<le> k \<and> k \<le> 90 then char_of (k + 32) else c)"

definition py_upper_char :: "char \<Rightarrow> char" where
  "py_upper_char c =
     (let k = (of_char c :: nat) in if 97 \<le> k \<and> k \<le> 122 then char_of (k - 32) else c)"

definition py_lower :: "string \<Rightarrow> string" where
  "py_lower s = map py_lower_char s"

definition py_upper :: "string \<Rightarrow> string" where
  "py_upper s = map py_upper_char s"

section \<open>The hex-identifier codec: \<^verbatim>\<open>encode_id\<close> and \<^verbatim>\<open>decode_id\<close>\<close>

subsection \<open>\<^verbatim>\<open>int(s, 16)\<close>\<close>

text \<open>
  The value of a base-16 digit, in either case, and the white space \<^verbatim>\<open>int\<close> skips at
  both ends of a string (code points 9 to 13, 32, 133 and 160).
\<close>

definition hex_digit_val :: "char \<Rightarrow> nat option" where
  "hex_digit_val c =
     (let k = (of_char c :: nat) in
      if 48 \<le> k \<and> k \<le> 57 then Some (k - 48)
      else if 97 \<le> k \<and> k \<le> 102 then Some (k - 87)
      else if 65 \<le> k \<and> k \<le> 70 then Some (k - 55)
      else None)"

definition is_hex_digit :: "char \<Rightarrow> bool" where
  "is_hex_digit c = (hex_digit_val c \<noteq> None)"

definition py_isspace :: "char \<Rightarrow> bool" where
  "py_isspace c = ((of_char c :: nat) \<in> {9, 10, 11, 12, 13, 32, 133, 160})"

definition digits_value :: "string \<Rightarrow> nat" where
  "digits_value ds =
     foldl (\<lambda>acc c. 16 * acc + (case hex_digit_val c of Some d \<Rightarrow> d | None \<Rightarrow> 0)) 0 ds"

text \<open>
  \<^verbatim>\<open>int(s, 16)\<close>: white space at both ends, an optional sign, an optional \<^verbatim>\<open>0x\<close> or
  \<^verbatim>\<open>0X\<close> (which one underscore may follow), then at least one hex digit, with single
  underscores allowed between digits.  Anything else is a \<open>ValueError\<close>.
\<close>

definition py_int16 :: "string \<Rightarrow> error + int" where
  "py_int16 s =
     (let s1 = dropWhile py_isspace s;
          neg = (s1 \<noteq> [] \<and> hd s1 = CHR ''-'');
          s2 = (if s1 \<noteq> [] \<and> (hd s1 = CHR ''+'' \<or> hd s1 = CHR ''-'') then tl s1 else s1);
          s3 = (case s2 of
                  a # b # r \<Rightarrow>
                    if a = CHR ''0'' \<and> (b = CHR ''x'' \<or> b = CHR ''X'')
                    then (if r \<noteq> [] \<and> hd r = CHR ''_'' then tl r else r)
                    else s2
                | _ \<Rightarrow> s2);
          body = takeWhile (\<lambda>c. is_hex_digit c \<or> c = CHR ''_'') s3;
          rest = dropWhile (\<lambda>c. is_hex_digit c \<or> c = CHR ''_'') s3
      in if body = [] \<or> hd body = CHR ''_'' \<or> last body = CHR ''_'' \<or> py_in ''__'' body
            \<or> \<not> list_all py_isspace rest
         then Inl ValueError
         else Inr ((if neg then - 1 else 1) *
                   int (digits_value (filter (\<lambda>c. c \<noteq> CHR ''_'') body))))"

subsection \<open>\<^verbatim>\<open>hex(n)\<close> and \<^verbatim>\<open>str.zfill\<close>\<close>

definition hex_char :: "nat \<Rightarrow> char" where
  "hex_char d = (if d < 10 then char_of (48 + d) else char_of (87 + d))"

function hex_digits :: "nat \<Rightarrow> string" where
  "hex_digits n = (if n < 16 then [hex_char n] else hex_digits (n div 16) @ [hex_char (n mod 16)])"
  by pat_completeness auto
termination
  by (relation "measure id") auto

declare hex_digits.simps [simp del]

definition py_hex :: "int \<Rightarrow> string" where
  "py_hex n = (if n < 0 then ''-0x'' @ hex_digits (nat (- n)) else ''0x'' @ hex_digits (nat n))"

text \<open>
  \<^verbatim>\<open>s.zfill(width)\<close> pads with zeros on the left up to \<open>width\<close> characters, after a
  leading sign if there is one, and returns \<open>s\<close> when it is already that long.
\<close>

definition zfill :: "int \<Rightarrow> string \<Rightarrow> string" where
  "zfill width s =
     (if width \<le> int (length s) then s
      else (let fill = replicate (nat width - length s) CHR ''0''
            in if s \<noteq> [] \<and> (hd s = CHR ''+'' \<or> hd s = CHR ''-'') then hd s # fill @ tl s
               else fill @ s))"

subsection \<open>The codec\<close>

text \<open>
  \<^verbatim>\<open>third = int(len_id / 3)\<close> truncates the quotient towards zero.  The source takes the
  quotient as a float; for a length of an identifier, a number far below \<open>2\<^sup>5\<^sup>3\<close>, the
  float is below the next integer and its truncation is the truncated quotient of the
  integers, which is what the model takes.
\<close>

definition py_trunc_div :: "int \<Rightarrow> int \<Rightarrow> int" where
  "py_trunc_div a b =
     (if (a < 0) = (b < 0) then \<bar>a\<bar> div \<bar>b\<bar> else - (\<bar>a\<bar> div \<bar>b\<bar>))"

text \<open>
  The three slices \<^verbatim>\<open>encode_id\<close> takes of an identifier: \<^verbatim>\<open>id[:14]\<close>, \<^verbatim>\<open>id[14:27]\<close>,
  \<^verbatim>\<open>id[27:]\<close> for 40 characters, and \<^verbatim>\<open>id[:third]\<close>, \<^verbatim>\<open>id[third:third*2]\<close>,
  \<^verbatim>\<open>id[third*2:]\<close> with \<^verbatim>\<open>third = int(len_id / 3)\<close> otherwise.
\<close>

definition id_parts :: "string \<Rightarrow> string \<times> string \<times> string" where
  "id_parts ident =
     (if length ident = 40 then (take 14 ident, drop 14 (take 27 ident), drop 27 ident)
      else (let third = nat (py_trunc_div (int (length ident)) 3)
            in (take third ident, drop third (take (third * 2) ident), drop (third * 2) ident)))"

definition encode_id :: "string option \<Rightarrow> error + int \<times> int \<times> int \<times> int" where
  "encode_id x =
     (case x of
        None \<Rightarrow> Inr (0, 0, 0, 0)
      | Some ident \<Rightarrow>
          if length ident \<notin> {24, 32, 40} then Inl AssertionError
          else (case id_parts ident of (hexa_1, hexa_2, hexa_3) \<Rightarrow>
            (case py_int16 hexa_1 of Inl e \<Rightarrow> Inl e | Inr int_1 \<Rightarrow>
            (case py_int16 hexa_2 of Inl e \<Rightarrow> Inl e | Inr int_2 \<Rightarrow>
            (case py_int16 hexa_3 of Inl e \<Rightarrow> Inl e | Inr int_3 \<Rightarrow>
               Inr (int (length ident), int_1, int_2, int_3))))))"

definition decode_id :: "int \<Rightarrow> int \<Rightarrow> int \<Rightarrow> int \<Rightarrow> error + string" where
  "decode_id len_id int_1 int_2 int_3 =
     (let hexa_1 = drop 2 (py_hex int_1);
          hexa_2 = drop 2 (py_hex int_2);
          hexa_3 = drop 2 (py_hex int_3);
          third = py_trunc_div len_id 3;
          hexa = (if len_id = 40 then zfill 14 hexa_1 @ zfill 13 hexa_2 @ zfill 13 hexa_3
                  else zfill third hexa_1 @ zfill third hexa_2 @ zfill third hexa_3)
      in if int (length hexa) = len_id then Inr hexa else Inl AssertionError)"

text \<open>\<^verbatim>\<open>decode_id(*encode_id(x))\<close>: an error of \<^verbatim>\<open>encode_id\<close> is the error of the whole.\<close>

definition decode_encode :: "string option \<Rightarrow> error + string" where
  "decode_encode x =
     (case encode_id x of
        Inl e \<Rightarrow> Inl e
      | Inr (len_id, int_1, int_2, int_3) \<Rightarrow> decode_id len_id int_1 int_2 int_3)"

section \<open>IOB tag merging: \<^verbatim>\<open>convert_iob_to_simple_tags\<close>\<close>

text \<open>
  A span is a dictionary with the keys \<^verbatim>\<open>"start"\<close> and \<^verbatim>\<open>"end"\<close>.  The function keeps
  references to the span objects it is given and assigns to \<^verbatim>\<open>cur_span["end"]\<close>, so the
  objects live in a store and the lists hold their addresses.
\<close>

record span =
  span_start :: int
  span_end :: int

type_synonym addr = nat

type_synonym store = "addr \<Rightarrow> span"

text \<open>
  The local variables of the function.  \<^verbatim>\<open>cur_tag\<close> and \<^verbatim>\<open>cur_span\<close> are not assigned
  before the loop: \<open>None\<close> is the unbound variable, and reading it raises.
\<close>

record iob_state =
  simple_tags :: "string list"
  merged_spans :: "addr list"
  open_tag :: bool
  cur_tag :: "string option"
  cur_span :: "addr option"
  objects :: store

text \<open>\<^verbatim>\<open>merged_spans.append(cur_span); simple_tags.append(cur_tag)\<close>\<close>

definition append_current :: "iob_state \<Rightarrow> error + iob_state" where
  "append_current st =
     (case cur_span st of
        None \<Rightarrow> Inl UnboundLocalError
      | Some a \<Rightarrow>
          (case cur_tag st of
             None \<Rightarrow> Inl UnboundLocalError
           | Some t \<Rightarrow>
               Inr (st\<lparr>merged_spans := merged_spans st @ [a],
                       simple_tags := simple_tags st @ [t]\<rparr>)))"

text \<open>One turn of the loop \<^verbatim>\<open>for pred, span in zip(preds, spans)\<close>.\<close>

definition iob_step :: "iob_state \<Rightarrow> string \<times> addr \<Rightarrow> error + iob_state" where
  "iob_step st x =
     (case x of (pred, span) \<Rightarrow>
        if \<not> (py_in ''B-'' pred \<or> py_in ''I-'' pred) then
          (if open_tag st then
             (case append_current st of
                Inl e \<Rightarrow> Inl e
              | Inr st' \<Rightarrow> Inr (st'\<lparr>open_tag := False\<rparr>))
           else Inr st)
        else if py_in ''B-'' pred then
          (case (if open_tag st then append_current st else Inr st) of
             Inl e \<Rightarrow> Inl e
           | Inr st' \<Rightarrow>
               Inr (st'\<lparr>cur_tag := Some (py_remove ''B-'' pred), cur_span := Some span,
                        open_tag := True\<rparr>))
        else if py_in ''I-'' pred then
          (let this_tag = py_remove ''I-'' pred in
           if open_tag st then
             (case cur_tag st of
                None \<Rightarrow> Inl UnboundLocalError
              | Some t \<Rightarrow>
                  if this_tag = t then
                    (case cur_span st of
                       None \<Rightarrow> Inl UnboundLocalError
                     | Some a \<Rightarrow>
                         Inr (st\<lparr>objects := (objects st)
                                  (a := (objects st a)\<lparr>span_end := span_end (objects st span)\<rparr>)\<rparr>))
                  else
                    (case append_current st of
                       Inl e \<Rightarrow> Inl e
                     | Inr st' \<Rightarrow> Inr (st'\<lparr>open_tag := False\<rparr>)))
           else Inr st)
        else Inr st)"

fun iob_loop :: "iob_state \<Rightarrow> (string \<times> addr) list \<Rightarrow> error + iob_state" where
  "iob_loop st [] = Inr st"
| "iob_loop st (x # xs) = (case iob_step st x of Inl e \<Rightarrow> Inl e | Inr st' \<Rightarrow> iob_loop st' xs)"

text \<open>The statement after the loop: \<^verbatim>\<open>if open_tag: \<dots>append\<dots>; open_tag = False\<close>.\<close>

definition iob_finish :: "iob_state \<Rightarrow> error + iob_state" where
  "iob_finish st =
     (if open_tag st then
        (case append_current st of Inl e \<Rightarrow> Inl e | Inr st' \<Rightarrow> Inr (st'\<lparr>open_tag := False\<rparr>))
      else Inr st)"

definition iob_init :: "store \<Rightarrow> iob_state" where
  "iob_init h =
     \<lparr>simple_tags = [], merged_spans = [], open_tag = False, cur_tag = None, cur_span = None,
      objects = h\<rparr>"

definition iob_run :: "iob_state \<Rightarrow> (string \<times> addr) list \<Rightarrow> error + iob_state" where
  "iob_run st toks = (case iob_loop st toks of Inl e \<Rightarrow> Inl e | Inr st' \<Rightarrow> iob_finish st')"

text \<open>
  \<^verbatim>\<open>convert_iob_to_simple_tags(preds, spans)\<close> in the store \<open>h\<close>: the two lists it returns
  and the store it leaves.
\<close>

definition convert_iob_to_simple_tags ::
  "store \<Rightarrow> string list \<Rightarrow> addr list \<Rightarrow> error + string list \<times> addr list \<times> store" where
  "convert_iob_to_simple_tags h preds spans =
     (case iob_run (iob_init h) (zip preds spans) of
        Inl e \<Rightarrow> Inl e
      | Inr st \<Rightarrow> Inr (simple_tags st, merged_spans st, objects st))"

text \<open>
  What a caller sees: the returned tags with the returned span objects read after the
  call, and the span objects it passed in, read after the call.
\<close>

definition iob_result :: "store \<Rightarrow> string list \<Rightarrow> addr list \<Rightarrow> error + string list \<times> span list" where
  "iob_result h preds spans =
     (case convert_iob_to_simple_tags h preds spans of
        Inl e \<Rightarrow> Inl e
      | Inr (tags, ms, h') \<Rightarrow> Inr (tags, map h' ms))"

definition spans_after :: "store \<Rightarrow> string list \<Rightarrow> addr list \<Rightarrow> error + span list" where
  "spans_after h preds spans =
     (case convert_iob_to_simple_tags h preds spans of
        Inl e \<Rightarrow> Inl e
      | Inr (tags, ms, h') \<Rightarrow> Inr (map h' spans))"

text \<open>A store that holds the spans of a list at the addresses 0, 1, 2, \<dots>\<close>

definition store_of :: "span list \<Rightarrow> store" where
  "store_of xs a = (if a < length xs then xs ! a else \<lparr>span_start = 0, span_end = 0\<rparr>)"

subsection \<open>The state machine of the specification\<close>

text \<open>
  Written from the specification, not from the code: a tag is \<^verbatim>\<open>B-X\<close>, \<^verbatim>\<open>I-X\<close> or,
  without one of these prefixes, \<^verbatim>\<open>O\<close>; the machine is \<open>CLOSED\<close> or \<open>OPEN\<close> with a tag and a
  span, and emits an entity when it closes one.
\<close>

datatype iob_token = Tag_O | Tag_B string | Tag_I string

datatype spec_state = CLOSED | OPEN string span

definition spec_token_of :: "string \<Rightarrow> iob_token" where
  "spec_token_of tag =
     (if take 2 tag = ''B-'' then Tag_B (drop 2 tag)
      else if take 2 tag = ''I-'' then Tag_I (drop 2 tag)
      else Tag_O)"

fun spec_step :: "spec_state \<Rightarrow> iob_token \<times> span \<Rightarrow> (string \<times> span) list \<times> spec_state" where
  "spec_step CLOSED (Tag_O, s) = ([], CLOSED)"
| "spec_step (OPEN t sp) (Tag_O, s) = ([(t, sp)], CLOSED)"
| "spec_step CLOSED (Tag_B x, s) = ([], OPEN x s)"
| "spec_step (OPEN t sp) (Tag_B x, s) = ([(t, sp)], OPEN x s)"
| "spec_step CLOSED (Tag_I x, s) = ([], CLOSED)"
| "spec_step (OPEN t sp) (Tag_I x, s) =
     (if x = t then ([], OPEN t (sp\<lparr>span_end := span_end s\<rparr>)) else ([(t, sp)], CLOSED))"

fun spec_run :: "spec_state \<Rightarrow> (iob_token \<times> span) list \<Rightarrow> (string \<times> span) list" where
  "spec_run CLOSED [] = []"
| "spec_run (OPEN t sp) [] = [(t, sp)]"
| "spec_run st (x # xs) = (case spec_step st x of (out, st') \<Rightarrow> out @ spec_run st' xs)"

definition merge_iob_spans :: "string list \<Rightarrow> span list \<Rightarrow> string list \<times> span list" where
  "merge_iob_spans tags spans =
     (let out = spec_run CLOSED (zip (map spec_token_of tags) spans)
      in (map fst out, map snd out))"

text \<open>
  The tags of the claims: \<^verbatim>\<open>O\<close>, \<^verbatim>\<open>B-<TYPE>\<close> and \<^verbatim>\<open>I-<TYPE>\<close>; and those among them
  whose type name contains neither \<^verbatim>\<open>B-\<close> nor \<^verbatim>\<open>I-\<close>.
\<close>

definition iob_tag :: "string \<Rightarrow> bool" where
  "iob_tag tag = (tag = ''O'' \<or> take 2 tag = ''B-'' \<or> take 2 tag = ''I-'')"

definition plain_iob_tag :: "string \<Rightarrow> bool" where
  "plain_iob_tag tag =
     (tag = ''O'' \<or>
      ((take 2 tag = ''B-'' \<or> take 2 tag = ''I-'') \<and>
       \<not> py_in ''B-'' (drop 2 tag) \<and> \<not> py_in ''I-'' (drop 2 tag)))"

text \<open>How the three branches of the code read a tag.\<close>

definition code_token_of :: "string \<Rightarrow> iob_token" where
  "code_token_of pred =
     (if \<not> (py_in ''B-'' pred \<or> py_in ''I-'' pred) then Tag_O
      else if py_in ''B-'' pred then Tag_B (py_remove ''B-'' pred)
      else Tag_I (py_remove ''I-'' pred))"

subsection \<open>Notions used in the proofs about the merge\<close>

text \<open>
  Whenever \<^verbatim>\<open>open_tag\<close> is true, \<^verbatim>\<open>cur_tag\<close> and \<^verbatim>\<open>cur_span\<close> have been assigned; the
  state of the specification's machine that a state of the loop stands for; and the
  tokens the loop will read, with each span object as the store holds it.
\<close>

definition cur_bound :: "iob_state \<Rightarrow> bool" where
  "cur_bound st = (open_tag st \<longrightarrow> cur_tag st \<noteq> None \<and> cur_span st \<noteq> None)"

definition spec_state_of :: "iob_state \<Rightarrow> spec_state" where
  "spec_state_of st =
     (if open_tag st then
        (case cur_tag st of
           None \<Rightarrow> CLOSED
         | Some t \<Rightarrow> (case cur_span st of None \<Rightarrow> CLOSED | Some c \<Rightarrow> OPEN t (objects st c)))
      else CLOSED)"

definition read_tokens :: "store \<Rightarrow> (string \<times> addr) list \<Rightarrow> (iob_token \<times> span) list" where
  "read_tokens h toks = map (\<lambda>x. (code_token_of (fst x), h (snd x))) toks"

section \<open>Properties of the chunk-size heuristic\<close>

subsection \<open>Rounding to a float\<close>

lemma bits_less: "n < 2 ^ bits n"
proof (induction n rule: bits.induct)
  case (1 n)
  show ?case
  proof (cases "n = 0")
    case True
    then show ?thesis by (simp add: bits.simps)
  next
    case False
    from 1[OF False] have "n div 2 < 2 ^ bits (n div 2)" .
    then have "n < 2 * 2 ^ bits (n div 2)" by linarith
    with False show ?thesis by (subst bits.simps) simp
  qed
qed

lemma bits_ge: "0 < n \<Longrightarrow> 2 ^ (bits n - 1) \<le> n"
proof (induction n rule: bits.induct)
  case (1 n)
  from 1(2) have nz: "n \<noteq> 0" by simp
  have b: "bits n = Suc (bits (n div 2))" using nz by (subst bits.simps) simp
  show ?case
  proof (cases "n div 2 = 0")
    case True
    then have "bits (n div 2) = 0" by (simp add: bits.simps)
    with b 1(2) show ?thesis by simp
  next
    case False
    then have pos: "0 < n div 2" by simp
    from 1(1)[OF nz pos] have ih: "2 ^ (bits (n div 2) - 1) \<le> n div 2" .
    have "0 < bits (n div 2)" using False by (subst bits.simps) simp
    then have "(2::nat) ^ bits (n div 2) = 2 * 2 ^ (bits (n div 2) - 1)"
      by (cases "bits (n div 2)") simp_all
    with ih have "2 ^ bits (n div 2) \<le> n" by linarith
    with b show ?thesis by simp
  qed
qed

lemma bits_le: "n < 2 ^ k \<Longrightarrow> bits n \<le> k"
proof (rule ccontr)
  assume n: "n < 2 ^ k" and "\<not> bits n \<le> k"
  then have k: "k \<le> bits n - 1" by simp
  have "0 < n" using \<open>\<not> bits n \<le> k\<close> by (cases "n = 0") (simp_all add: bits.simps)
  from bits_ge[OF this] have "2 ^ (bits n - 1) \<le> n" .
  moreover have "(2::nat) ^ k \<le> 2 ^ (bits n - 1)" using k by (intro power_increasing) simp_all
  ultimately show False using n by linarith
qed

lemma bits_gt: "2 ^ k \<le> n \<Longrightarrow> k < bits n"
proof -
  assume "2 ^ k \<le> n"
  with bits_less[of n] have "(2::nat) ^ k < 2 ^ bits n" by linarith
  then show ?thesis by simp
qed


lemma rhe_ge: "p div q \<le> round_half_even p q"
  by (simp add: round_half_even_def Let_def)

lemma rhe_le: "round_half_even p q \<le> p div q + 1"
  by (simp add: round_half_even_def Let_def)

lemma rhe_exact: "0 < q \<Longrightarrow> q dvd p \<Longrightarrow> round_half_even p q = p div q"
  by (simp add: round_half_even_def Let_def)

lemma scaled_div_less:
  fixes a b c :: nat
  assumes "0 < b" and "0 < c"
  shows "a * c div b < (a div b + 1) * c"
proof -
  have "a < (a div b + 1) * b" using assms(1) dividend_less_div_times[of b a] by simp
  then have "a * c < ((a div b + 1) * b) * c" using assms(2) by (intro mult_strict_right_mono) simp_all
  also have "\<dots> = ((a div b + 1) * c) * b" by (simp only: ac_simps)
  finally show ?thesis by (rule less_mult_imp_div_less)
qed

lemma shift_le:
  assumes "0 < b" and "a div b < 2 ^ p"
  shows "bits (a * 2 ^ e div b) - p \<le> e"
proof -
  have "a * 2 ^ e div b < (a div b + 1) * 2 ^ e" by (rule scaled_div_less[OF assms(1)]) simp
  also have "\<dots> \<le> 2 ^ p * 2 ^ e" using assms(2) by (intro mult_right_mono) simp_all
  also have "\<dots> = 2 ^ (p + e)" by (simp add: power_add)
  finally have "bits (a * 2 ^ e div b) \<le> p + e" by (rule bits_le)
  then show ?thesis by simp
qed

lemma nearest_scaled_upper:
  assumes "0 < b" and "a div b < 2 ^ p"
  shows "nearest_scaled e p a b \<le> (a div b + 1) * 2 ^ e"
proof -
  define t where "t = bits (a * 2 ^ e div b) - p"
  have t: "t \<le> e" unfolding t_def by (rule shift_le[OF assms])
  then have e: "(2::nat) ^ e = 2 ^ (e - t) * 2 ^ t" by (simp flip: power_add)
  have "a * 2 ^ e div (b * 2 ^ t) = a * 2 ^ (e - t) div b"
    unfolding e by (simp add: mult.assoc [symmetric])
  moreover have "a * 2 ^ (e - t) div b < (a div b + 1) * 2 ^ (e - t)"
    by (rule scaled_div_less[OF assms(1)]) simp
  ultimately have "a * 2 ^ e div (b * 2 ^ t) + 1 \<le> (a div b + 1) * 2 ^ (e - t)" by simp
  with rhe_le[of "a * 2 ^ e" "b * 2 ^ t"]
  have "round_half_even (a * 2 ^ e) (b * 2 ^ t) \<le> (a div b + 1) * 2 ^ (e - t)" by linarith
  then have "round_half_even (a * 2 ^ e) (b * 2 ^ t) * 2 ^ t \<le> (a div b + 1) * 2 ^ (e - t) * 2 ^ t"
    by (rule mult_right_mono) simp
  also have "\<dots> = (a div b + 1) * 2 ^ e" by (simp only: mult.assoc e [symmetric])
  finally show ?thesis by (simp add: nearest_scaled_def Let_def t_def)
qed

lemma nearest_scaled_exact:
  assumes "0 < b" and "b dvd a" and "a div b < 2 ^ p"
  shows "nearest_scaled e p a b = (a div b) * 2 ^ e"
proof -
  define t where "t = bits (a * 2 ^ e div b) - p"
  have t: "t \<le> e" unfolding t_def by (rule shift_le[OF assms(1,3)])
  then have e: "(2::nat) ^ e = 2 ^ (e - t) * 2 ^ t" by (simp flip: power_add)
  from assms(2) obtain m where a: "a = b * m" by (rule dvdE)
  have m: "a div b = m" using assms(1) a by simp
  have A: "a * 2 ^ e = (m * 2 ^ (e - t)) * (b * 2 ^ t)" unfolding a e by (simp add: ac_simps)
  have q: "0 < b * 2 ^ t" using assms(1) by simp
  have "round_half_even (a * 2 ^ e) (b * 2 ^ t) = m * 2 ^ (e - t)"
    unfolding A using q rhe_exact[of "b * 2 ^ t" "(m * 2 ^ (e - t)) * (b * 2 ^ t)"] by simp
  then have "round_half_even (a * 2 ^ e) (b * 2 ^ t) * 2 ^ t = m * 2 ^ (e - t) * 2 ^ t" by simp
  also have "\<dots> = m * 2 ^ e" by (simp only: mult.assoc e [symmetric])
  finally show ?thesis by (simp add: nearest_scaled_def Let_def t_def m)
qed

lemma nearest_scaled_lower:
  assumes "m \<le> v" and "m \<le> 2 ^ p" and "0 < p"
  shows "m * 2 ^ e \<le> nearest_scaled e p v 1"
proof (cases "v < 2 ^ p")
  case True
  then have "nearest_scaled e p v 1 = v * 2 ^ e"
    using nearest_scaled_exact[of 1 v p e] by simp
  with assms(1) show ?thesis by simp
next
  case False
  define A where "A = v * 2 ^ e"
  define L where "L = bits A"
  define t where "t = L - p"
  from False have "(2::nat) ^ p * 2 ^ e \<le> v * 2 ^ e" by (intro mult_right_mono) simp_all
  then have big: "2 ^ (p + e) \<le> A" by (simp add: A_def power_add)
  from bits_gt[OF this] have L: "p + e < L" by (simp add: L_def)
  have "0 < A" using big by (metis gr0I not_less zero_less_numeral zero_less_power leD)
  from bits_ge[OF this] have low: "2 ^ (L - 1) \<le> A" by (simp add: L_def)
  have tl: "t \<le> L - 1" using L assms(3) by (simp add: t_def)
  have "(2::nat) ^ (L - 1 - t) = 2 ^ (L - 1) div 2 ^ t" by (rule power_diff) (use tl in simp_all)
  moreover have "(2::nat) ^ (L - 1) div 2 ^ t \<le> A div 2 ^ t" using low by (rule div_le_mono)
  ultimately have "2 ^ (L - 1 - t) \<le> A div 2 ^ t" by simp
  with rhe_ge[of A "2 ^ t"] have "2 ^ (L - 1 - t) \<le> round_half_even A (2 ^ t)" by linarith
  then have "2 ^ (L - 1 - t) * 2 ^ t \<le> round_half_even A (2 ^ t) * 2 ^ t"
    by (rule mult_right_mono) simp
  moreover have "(2::nat) ^ (L - 1 - t) * 2 ^ t = 2 ^ (L - 1)" using tl by (simp flip: power_add)
  moreover have "(2::nat) ^ (p + e) \<le> 2 ^ (L - 1)" using L by (intro power_increasing) simp_all
  moreover have "m * 2 ^ e \<le> 2 ^ (p + e)" using assms(2) by (simp add: power_add)
  ultimately have "m * 2 ^ e \<le> round_half_even A (2 ^ t) * 2 ^ t" by linarith
  then show ?thesis by (simp add: nearest_scaled_def Let_def A_def L_def t_def)
qed

lemma double_unit_pos: "0 < double_unit"
  unfolding double_unit_def by (rule zero_less_power) simp

lemma nearest_double_upper:
  "0 < b \<Longrightarrow> a div b < 2 ^ 53 \<Longrightarrow> nearest_double a b \<le> (a div b + 1) * double_unit"
  unfolding nearest_double_def double_unit_def by (rule nearest_scaled_upper)

lemma nearest_double_exact:
  "0 < b \<Longrightarrow> b dvd a \<Longrightarrow> a div b < 2 ^ 53 \<Longrightarrow> nearest_double a b = (a div b) * double_unit"
  unfolding nearest_double_def double_unit_def by (rule nearest_scaled_exact)

lemma nearest_double_lower:
  "m \<le> v \<Longrightarrow> m \<le> 2 ^ 53 \<Longrightarrow> m * double_unit \<le> nearest_double v 1"
  unfolding nearest_double_def double_unit_def by (rule nearest_scaled_lower) simp_all

lemma below_double_limit:
  assumes "r \<le> c * double_unit" and "c \<le> 2 ^ 53"
  shows "\<not> double_limit \<le> r"
proof -
  have "(2::nat) ^ 53 < 2 ^ 1024" by (rule power_strict_increasing) simp_all
  with assms(2) have "c < 2 ^ 1024" by linarith
  then have "c * double_unit < 2 ^ 1024 * double_unit"
    using double_unit_pos by (intro mult_strict_right_mono) simp_all
  with assms(1) show ?thesis unfolding double_limit_def by linarith
qed

lemma ceil_units_le:
  assumes "r \<le> c * double_unit"
  shows "(r + double_unit - 1) div double_unit \<le> c"
proof -
  have "r + double_unit - 1 < (c + 1) * double_unit" using assms double_unit_pos by simp
  then have "(r + double_unit - 1) div double_unit < c + 1" by (rule less_mult_imp_div_less)
  then show ?thesis by simp
qed

lemma ceil_units_exact: "(m * double_unit + double_unit - 1) div double_unit = m"
proof -
  have nz: "double_unit \<noteq> 0" using double_unit_pos by simp
  have e: "m * double_unit + double_unit - 1 = m * double_unit + (double_unit - 1)"
    using double_unit_pos by simp
  have "(m * double_unit + (double_unit - 1)) div double_unit = m + (double_unit - 1) div double_unit"
    by (rule div_mult_self3[OF nz])
  also have "(double_unit - 1) div double_unit = 0" using double_unit_pos by (intro div_less) simp
  finally show ?thesis unfolding e by simp
qed

lemma py_ceil_div_bounds:
  assumes "0 \<le> a" and "0 < b" and "a div b < 2 ^ 53"
  shows "\<exists>d. py_ceil_div a b = Inr d \<and> 0 \<le> d \<and> d \<le> a div b + 1"
proof -
  let ?r = "nearest_double (nat \<bar>a\<bar>) (nat \<bar>b\<bar>)"
  have d: "nat \<bar>a\<bar> div nat \<bar>b\<bar> = nat (a div b)" using assms(1,2) by (simp add: nat_div_distrib)
  have lt: "nat \<bar>a\<bar> div nat \<bar>b\<bar> < 2 ^ 53" unfolding d using assms(3) by simp
  have up: "?r \<le> (nat (a div b) + 1) * double_unit"
    using nearest_double_upper[OF _ lt] assms(2) d by simp
  have no: "\<not> double_limit \<le> ?r" using up lt d by (intro below_double_limit[OF up]) simp
  have "(?r + double_unit - 1) div double_unit \<le> nat (a div b) + 1" by (rule ceil_units_le[OF up])
  moreover have "0 \<le> a div b" using assms(1,2) by (simp add: pos_imp_zdiv_nonneg_iff)
  ultimately have "int ((?r + double_unit - 1) div double_unit) \<le> a div b + 1" by linarith
  with no assms(1,2) show ?thesis by (simp add: py_ceil_div_def Let_def)
qed

lemma py_ceil_div_exact:
  assumes "0 \<le> a" and "0 < b" and "b dvd a" and "a div b < 2 ^ 53"
  shows "py_ceil_div a b = Inr (a div b)"
proof -
  let ?r = "nearest_double (nat \<bar>a\<bar>) (nat \<bar>b\<bar>)"
  have d: "nat \<bar>a\<bar> div nat \<bar>b\<bar> = nat (a div b)" using assms(1,2) by (simp add: nat_div_distrib)
  have lt: "nat \<bar>a\<bar> div nat \<bar>b\<bar> < 2 ^ 53" unfolding d using assms(4) by simp
  have dv: "nat \<bar>b\<bar> dvd nat \<bar>a\<bar>" using assms(1,2,3) by (simp add: nat_dvd_iff)
  have r: "?r = nat (a div b) * double_unit"
    using nearest_double_exact[OF _ dv lt] assms(2) d by simp
  have no: "\<not> double_limit \<le> ?r" using lt d by (intro below_double_limit[of _ "nat (a div b)"]) (simp_all add: r)
  have nn: "0 \<le> a div b" using assms(1,2) by (simp add: pos_imp_zdiv_nonneg_iff)
  have "(?r + double_unit - 1) div double_unit = nat (a div b)" unfolding r by (rule ceil_units_exact)
  with no nn assms(1,2) show ?thesis by (simp add: py_ceil_div_def Let_def)
qed

lemma py_int_truediv_bounds:
  assumes "0 \<le> a" and "0 < b" and "a div b < 2 ^ 53"
  shows "\<exists>q. py_int_truediv a b = Inr q \<and> 0 \<le> q \<and> q \<le> a div b + 1"
proof -
  let ?r = "nearest_double (nat \<bar>a\<bar>) (nat \<bar>b\<bar>)"
  have d: "nat \<bar>a\<bar> div nat \<bar>b\<bar> = nat (a div b)" using assms(1,2) by (simp add: nat_div_distrib)
  have lt: "nat \<bar>a\<bar> div nat \<bar>b\<bar> < 2 ^ 53" unfolding d using assms(3) by simp
  have up: "?r \<le> (nat (a div b) + 1) * double_unit"
    using nearest_double_upper[OF _ lt] assms(2) d by simp
  have no: "\<not> double_limit \<le> ?r" using up lt d by (intro below_double_limit[OF up]) simp
  have "?r div double_unit \<le> (nat (a div b) + 1) * double_unit div double_unit"
    using up by (rule div_le_mono)
  then have "?r div double_unit \<le> nat (a div b) + 1" using double_unit_pos by simp
  moreover have "0 \<le> a div b" using assms(1,2) by (simp add: pos_imp_zdiv_nonneg_iff)
  ultimately have "int (?r div double_unit) \<le> a div b + 1" by linarith
  with no assms(1,2) show ?thesis by (simp add: py_int_truediv_def Let_def)
qed

lemma py_int_truediv_exact:
  assumes "0 \<le> a" and "0 < b" and "b dvd a" and "a div b < 2 ^ 53"
  shows "py_int_truediv a b = Inr (a div b)"
proof -
  let ?r = "nearest_double (nat \<bar>a\<bar>) (nat \<bar>b\<bar>)"
  have d: "nat \<bar>a\<bar> div nat \<bar>b\<bar> = nat (a div b)" using assms(1,2) by (simp add: nat_div_distrib)
  have lt: "nat \<bar>a\<bar> div nat \<bar>b\<bar> < 2 ^ 53" unfolding d using assms(4) by simp
  have dv: "nat \<bar>b\<bar> dvd nat \<bar>a\<bar>" using assms(1,2,3) by (simp add: nat_dvd_iff)
  have r: "?r = nat (a div b) * double_unit"
    using nearest_double_exact[OF _ dv lt] assms(2) d by simp
  have no: "\<not> double_limit \<le> ?r" using lt d by (intro below_double_limit[of _ "nat (a div b)"]) (simp_all add: r)
  have nn: "0 \<le> a div b" using assms(1,2) by (simp add: pos_imp_zdiv_nonneg_iff)
  have "?r div double_unit = nat (a div b)" unfolding r using double_unit_pos by simp
  with no nn assms(1,2) show ?thesis by (simp add: py_int_truediv_def Let_def)
qed

lemma float_of_long_exact:
  assumes "0 \<le> sint w" and "sint w < 2 ^ 53"
  shows "float_of_long w = sint w"
proof -
  have "nat \<bar>sint w\<bar> div 1 < 2 ^ 53" using assms by simp
  from nearest_double_exact[OF _ _ this]
  have "nearest_double (nat \<bar>sint w\<bar>) 1 = nat \<bar>sint w\<bar> * double_unit" by simp
  then show ?thesis using assms(1) double_unit_pos by (simp add: float_of_long_def Let_def)
qed

lemma float_of_long_lower:
  assumes "0 \<le> m" and "m \<le> sint w" and "m \<le> 2 ^ 53"
  shows "m \<le> float_of_long w"
proof -
  have "nat m \<le> nat \<bar>sint w\<bar>" using assms(1,2) by simp
  moreover have "nat m \<le> 2 ^ 53" using assms(1,3) by (simp add: nat_le_iff)
  ultimately have "nat m * double_unit \<le> nearest_double (nat \<bar>sint w\<bar>) 1"
    by (rule nearest_double_lower)
  then have "nat m * double_unit div double_unit \<le> nearest_double (nat \<bar>sint w\<bar>) 1 div double_unit"
    by (rule div_le_mono)
  then have "nat m \<le> nearest_double (nat \<bar>sint w\<bar>) 1 div double_unit"
    using double_unit_pos by simp
  then show ?thesis using assms(1,2) by (simp add: float_of_long_def Let_def)
qed


lemma bits_double: "0 < x \<Longrightarrow> bits (2 * x) = Suc (bits x)"
  by (subst bits.simps) simp

lemma bits_shift: "0 < n \<Longrightarrow> bits (n * 2 ^ k) = bits n + k"
proof (induction k)
  case 0
  then show ?case by simp
next
  case (Suc k)
  have "n * 2 ^ Suc k = 2 * (n * 2 ^ k)" by simp
  moreover have "0 < n * 2 ^ k" using Suc.prems by simp
  ultimately have "bits (n * 2 ^ Suc k) = Suc (bits (n * 2 ^ k))" by (simp only: bits_double)
  with Suc show ?case by simp
qed

lemma nearest_scaled_tie:
  "nearest_scaled e 53 9007199254740993 1 = 9007199254740992 * 2 ^ e"
proof -
  have "bits 9007199254740993 \<le> 54" by (rule bits_le) simp
  moreover have "53 < bits 9007199254740993" by (rule bits_gt) simp
  ultimately have "bits 9007199254740993 = 54" by simp
  then have b: "bits (9007199254740993 * 2 ^ e) = 54 + e"
    using bits_shift[of 9007199254740993 e] by simp
  have t: "bits (9007199254740993 * 2 ^ e div 1) - 53 = Suc e" by (simp add: b)
  have nz: "(2::nat) ^ e \<noteq> 0" by simp
  have dv: "(9007199254740993 * 2 ^ e) div (2 * 2 ^ e) = (4503599627370496::nat)"
    using div_mult_mult2[OF nz, of 9007199254740993 2] by simp
  have md: "(9007199254740993 * 2 ^ e) mod (2 * 2 ^ e) = (2 ^ e :: nat)"
    using mod_mult_mult2[of 9007199254740993 "2 ^ e" "2::nat"] by simp
  have "round_half_even (9007199254740993 * 2 ^ e) (2 * 2 ^ e) = 4503599627370496"
    unfolding round_half_even_def Let_def dv md by simp
  then have "round_half_even (9007199254740993 * 2 ^ e) (1 * 2 ^ Suc e) * 2 ^ Suc e =
      9007199254740992 * 2 ^ e" by simp
  then show ?thesis unfolding nearest_scaled_def Let_def t .
qed

lemma float_of_long_tie: "float_of_long 9007199254740993 = 9007199254740992"
proof -
  have "nearest_double 9007199254740993 1 = 9007199254740992 * double_unit"
    unfolding nearest_double_def double_unit_def by (rule nearest_scaled_tie)
  then show ?thesis using double_unit_pos by (simp add: float_of_long_def Let_def)
qed

lemma py_int_truediv_nonneg:
  "0 \<le> a \<Longrightarrow> 0 < b \<Longrightarrow> py_int_truediv a b = Inr q \<Longrightarrow> 0 \<le> q"
  by (auto simp: py_int_truediv_def Let_def split: if_splits)

subsection \<open>The remainder loop\<close>

lemma chunk_loop_result:
  assumes "chunk_loop n c = Some r"
  shows "(r = Inl ZeroDivisionError \<and> c \<le> 0) \<or>
         (\<exists>c'. r = Inr c' \<and> c \<le> c' \<and> c' \<noteq> 0 \<and> n mod c' \<noteq> 1)"
proof (rule chunk_loop.raw_induct [where P = "\<lambda>n c r. (r = Inl ZeroDivisionError \<and> c \<le> 0) \<or>
         (\<exists>c'. r = Inr c' \<and> c \<le> c' \<and> c' \<noteq> 0 \<and> n mod c' \<noteq> 1)", OF _ assms])
  fix loop :: "int \<Rightarrow> int \<Rightarrow> (error + int) option" and n c :: int and r :: "error + int"
  assume IH: "\<And>n c r. loop n c = Some r \<Longrightarrow> (r = Inl ZeroDivisionError \<and> c \<le> 0) \<or>
         (\<exists>c'. r = Inr c' \<and> c \<le> c' \<and> c' \<noteq> 0 \<and> n mod c' \<noteq> 1)"
    and step: "(if c = 0 then Some (Inl ZeroDivisionError)
                else if n mod c = 1 then loop n (c + 1) else Some (Inr c)) = Some r"
  show "(r = Inl ZeroDivisionError \<and> c \<le> 0) \<or>
         (\<exists>c'. r = Inr c' \<and> c \<le> c' \<and> c' \<noteq> 0 \<and> n mod c' \<noteq> 1)"
  proof (cases "c = 0")
    case True
    with step show ?thesis by simp
  next
    case nz: False
    show ?thesis
    proof (cases "n mod c = 1")
      case True
      with nz step have "loop n (c + 1) = Some r" by simp
      from IH[OF this] show ?thesis by auto
    next
      case False
      with nz step show ?thesis by auto
    qed
  qed
qed

lemma chunk_loop_single_record:
  assumes "chunk_loop n c = Some r"
  shows "n = 1 \<longrightarrow> c \<le> 1"
proof (rule chunk_loop.raw_induct [where P = "\<lambda>n c r. n = 1 \<longrightarrow> c \<le> 1", OF _ assms])
  fix loop :: "int \<Rightarrow> int \<Rightarrow> (error + int) option" and n c :: int and r :: "error + int"
  assume IH: "\<And>n c r. loop n c = Some r \<Longrightarrow> n = 1 \<longrightarrow> c \<le> 1"
    and step: "(if c = 0 then Some (Inl ZeroDivisionError)
                else if n mod c = 1 then loop n (c + 1) else Some (Inr c)) = Some r"
  show "n = 1 \<longrightarrow> c \<le> 1"
  proof (intro impI, rule ccontr)
    assume n: "n = 1" and "\<not> c \<le> 1"
    then have c: "2 \<le> c" by simp
    then have "(1::int) mod c = 1" by simp
    with c step n have "loop n (c + 1) = Some r" by simp
    from IH[OF this] n c show False by simp
  qed
qed

lemma chunk_loop_terminates:
  assumes "2 \<le> n" and "1 \<le> c"
  shows "\<exists>c'. chunk_loop n c = Some (Inr c')"
  using assms(2)
proof (induction "nat (n - c)" arbitrary: c rule: less_induct)
  case less
  show ?case
  proof (cases "n mod c = 1")
    case False
    with less.prems show ?thesis by (subst chunk_loop.simps) simp
  next
    case True
    have "c < n"
    proof (rule ccontr)
      assume "\<not> c < n"
      then have "n \<le> c" by simp
      then have "n mod c = (if n = c then 0 else n)"
        using assms(1) by (auto simp: mod_pos_pos_trivial)
      with True assms(1) show False by (simp split: if_splits)
    qed
    then have "nat (n - (c + 1)) < nat (n - c)" by simp
    from less.hyps[OF this] less.prems obtain c' where "chunk_loop n (c + 1) = Some (Inr c')"
      by auto
    with True less.prems show ?thesis by (subst chunk_loop.simps) simp
  qed
qed

lemma chunk_loop_stops: "c \<noteq> 0 \<Longrightarrow> n mod c \<noteq> 1 \<Longrightarrow> chunk_loop n c = Some (Inr c)"
  by (subst chunk_loop.simps) simp

subsection \<open>The claims about the heuristic\<close>

text \<open>
  C5.  The claim: for every \<open>num_dicts \<ge> 1\<close>, \<open>available_parallelism \<ge> 1\<close> and
  \<open>1 \<le> min_chunksize \<le> max_chunksize\<close> the heuristic terminates and returns.  The code
  does not: with one record and the default bounds 4 and 2000 the first chunk size is 4,
  \<open>1 mod c = 1\<close> for every \<open>c \<ge> 2\<close>, and the loop never ends, whatever the number of
  CPUs is.
\<close>

theorem calc_chunksize_single_record_never_returns:
  "calc_chunksize cpu_count 1 4 2000 = None"
proof -
  let ?k = "if cpu_count = 0 then 1 else int cpu_count"
  have k: "0 < ?k" by simp
  have "1 div ?k \<le> 1" by (rule int_div_le_self) simp
  then have small: "1 div ?k < 2 ^ 53" by simp
  from py_ceil_div_bounds[OF _ k small] obtain d
    where d: "py_ceil_div 1 ?k = Inr d" and d0: "0 \<le> d" and d1: "d \<le> 1 div ?k + 1" by auto
  from d1 \<open>1 div ?k \<le> 1\<close> have d2: "d \<le> 2" by simp
  with d0 have d5: "d div 5 = 0" by simp
  then have "d div 5 < 2 ^ 53" by simp
  from py_ceil_div_bounds[OF d0 _ this] obtain c
    where c: "py_ceil_div d 5 = Inr c" and c0: "0 \<le> c" and c1: "c \<le> d div 5 + 1" by auto
  from c1 d5 have c2: "c \<le> 1" by simp
  have f4: "float_of_long 4 = 4" by (rule trans[OF float_of_long_exact]) simp_all
  have f2000: "float_of_long 2000 = 2000" by (rule trans[OF float_of_long_exact]) simp_all
  have clip: "np_clip c 4 2000 = 4" using c2 by (simp add: np_clip_def f4 f2000)
  have loop: "chunk_loop 1 4 = None"
  proof (cases "chunk_loop 1 4")
    case (Some r)
    from chunk_loop_single_record[OF this] show ?thesis by simp
  qed simp
  show ?thesis by (simp add: calc_chunksize_def Let_def d c clip loop)
qed

text \<open>
  The loop does end for every corpus of at least two records, so a single record is
  the only positive size on which the heuristic hangs; below \<open>2\<^sup>5\<^sup>3\<close> records no
  quotient overflows either, and the call returns.
\<close>

lemma calc_chunksize_returns:
  assumes "2 \<le> num_dicts" and "num_dicts < 2 ^ 53"
    and "1 \<le> sint min_chunksize" and "sint min_chunksize \<le> sint max_chunksize"
  shows "\<exists>r. calc_chunksize cpu_count num_dicts min_chunksize max_chunksize = Some (Inr r)"
proof -
  let ?k = "if cpu_count = 0 then 1 else int cpu_count"
  have k: "0 < ?k" by simp
  have n0: "0 \<le> num_dicts" and n1: "0 < num_dicts" using assms(1) by simp_all
  have "num_dicts div ?k \<le> num_dicts" by (rule int_div_le_self[OF n1])
  with assms(2) have s1: "num_dicts div ?k < 2 ^ 53" by linarith
  from py_ceil_div_bounds[OF n0 k s1] obtain d
    where d: "py_ceil_div num_dicts ?k = Inr d" and d0: "0 \<le> d"
      and d1: "d \<le> num_dicts div ?k + 1" by auto
  from d1 s1 have "d \<le> 2 ^ 53" by linarith
  then have "d div 5 \<le> 2 ^ 53 div 5" by (rule zdiv_mono1) simp
  then have s2: "d div 5 < 2 ^ 53" by simp
  from py_ceil_div_bounds[OF d0 _ s2] obtain c
    where c: "py_ceil_div d 5 = Inr c" by auto
  have "1 \<le> float_of_long min_chunksize"
    by (rule float_of_long_lower[OF _ assms(3)]) simp_all
  moreover have "1 \<le> sint max_chunksize" using assms(3,4) by linarith
  then have "1 \<le> float_of_long max_chunksize"
    by (rule float_of_long_lower[rotated]) simp_all
  ultimately have one: "1 \<le> np_clip c min_chunksize max_chunksize"
    by (simp add: np_clip_def)
  from chunk_loop_terminates[OF assms(1) one] obtain c'
    where loop: "chunk_loop num_dicts (np_clip c min_chunksize max_chunksize) = Some (Inr c')"
    by blast
  from chunk_loop_result[OF loop] one have pos: "0 < c'" by auto
  have "num_dicts div c' \<le> num_dicts" by (rule int_div_le_self[OF n1])
  with assms(2) have "num_dicts div c' < 2 ^ 53" by linarith
  from py_int_truediv_bounds[OF n0 pos this] obtain q
    where q: "py_int_truediv num_dicts c' = Inr q" by auto
  show ?thesis by (simp add: calc_chunksize_def Let_def d c loop q)
qed

text \<open>
  C6.  The claim: whenever the heuristic returns on \<open>num_dicts \<ge> 1\<close> with at least one
  CPU, the chunk size is at least \<^verbatim>\<open>min_chunksize\<close>, there is at least one worker, and
  \<open>num_dicts mod chunk_size\<close> is not 1 unless the chunk size has hit \<^verbatim>\<open>max_chunksize\<close>.
  The claim puts no condition on the two bounds, and the code returns less than
  \<^verbatim>\<open>min_chunksize\<close> on two kinds of bounds.  When \<^verbatim>\<open>max_chunksize\<close> is below
  \<^verbatim>\<open>min_chunksize\<close>, \<^verbatim>\<open>np.clip\<close> gives \<^verbatim>\<open>max_chunksize\<close>: 100 records on 4 CPUs with
  the bounds 10 and 5 get the chunk size 5.  And \<^verbatim>\<open>np.clip\<close> compares with the double
  nearest to \<^verbatim>\<open>min_chunksize\<close>, which can be smaller: with both bounds
  \<open>2\<^sup>5\<^sup>3 + 1 = 9007199254740993\<close> the chunk size is \<open>2\<^sup>5\<^sup>3\<close>.
\<close>

theorem calc_chunksize_below_min_chunksize:
  "calc_chunksize 4 100 10 5 = Some (Inr (5, 4)) \<and> \<not> sint (10 :: 64 word) \<le> 5 \<and>
   calc_chunksize 4 100 9007199254740993 9007199254740993 = Some (Inr (9007199254740992, 1)) \<and>
   \<not> sint (9007199254740993 :: 64 word) \<le> 9007199254740992"
proof -
  have d: "py_ceil_div 100 4 = Inr 25" by (rule trans[OF py_ceil_div_exact]) simp_all
  have c: "py_ceil_div 25 5 = Inr 5" by (rule trans[OF py_ceil_div_exact]) simp_all
  have f10: "float_of_long 10 = 10" by (rule trans[OF float_of_long_exact]) simp_all
  have f5: "float_of_long 5 = 5" by (rule trans[OF float_of_long_exact]) simp_all
  have clip1: "np_clip 5 10 5 = 5" by (simp add: np_clip_def f10 f5)
  have loop1: "chunk_loop 100 5 = Some (Inr 5)" by (rule chunk_loop_stops) simp_all
  have q1: "py_int_truediv 100 5 = Inr 20" by (rule trans[OF py_int_truediv_exact]) simp_all
  have one: "calc_chunksize 4 100 10 5 = Some (Inr (5, 4))"
    by (simp add: calc_chunksize_def Let_def d c clip1 loop1 q1)
  have clip2: "np_clip 5 9007199254740993 9007199254740993 = 9007199254740992"
    by (simp add: np_clip_def float_of_long_tie)
  have loop2: "chunk_loop 100 9007199254740992 = Some (Inr 9007199254740992)"
    by (rule chunk_loop_stops) simp_all
  have "(100::int) div 9007199254740992 < 2 ^ 53" by simp
  from py_int_truediv_bounds[OF _ _ this] obtain q
    where q: "py_int_truediv 100 9007199254740992 = Inr q" and "0 \<le> q"
      and "q \<le> 100 div 9007199254740992 + 1" by auto
  then have "q = 0 \<or> q = 1" by auto
  then have two: "calc_chunksize 4 100 9007199254740993 9007199254740993 =
      Some (Inr (9007199254740992, 1))"
    by (auto simp: calc_chunksize_def Let_def d c clip2 loop2 q)
  from one two show ?thesis by simp
qed

text \<open>
  C6, as amended.  Whenever \<^verbatim>\<open>calc_chunksize\<close> returns on \<open>num_dicts \<ge> 1\<close> with at
  least one CPU and bounds \<open>1 \<le> min_chunksize \<le> max_chunksize\<close> with
  \<open>min_chunksize \<le> 2\<^sup>5\<^sup>3\<close>, the chunk size is at least \<^verbatim>\<open>min_chunksize\<close>, the number
  of workers is at least 1, and \<open>num_dicts mod chunk_size\<close> is not 1, whether or not the
  chunk size has hit \<^verbatim>\<open>max_chunksize\<close>.
\<close>

theorem calc_chunksize_guarantees:
  assumes "calc_chunksize cpu_count num_dicts min_chunksize max_chunksize =
             Some (Inr (chunk_size, num_cpus_used))"
    and "1 \<le> num_dicts" and "1 \<le> cpu_count"
    and "1 \<le> sint min_chunksize" and "sint min_chunksize \<le> sint max_chunksize"
    and "sint min_chunksize \<le> 2 ^ 53"
  shows "sint min_chunksize \<le> chunk_size \<and> 1 \<le> num_cpus_used \<and> num_dicts mod chunk_size \<noteq> 1"
proof -
  from assms(1) obtain d c q where
    loop: "chunk_loop num_dicts (np_clip c min_chunksize max_chunksize) = Some (Inr chunk_size)"
    and q: "py_int_truediv num_dicts chunk_size = Inr q"
    and w: "num_cpus_used = (let m = min (int cpu_count) q in if m = 0 then 1 else m)"
    by (auto simp: calc_chunksize_def Let_def split: sum.splits option.splits)
  have m0: "0 \<le> sint min_chunksize" using assms(4) by simp
  have "sint min_chunksize \<le> float_of_long min_chunksize"
    by (rule float_of_long_lower[OF m0 _ assms(6)]) simp
  moreover have "sint min_chunksize \<le> float_of_long max_chunksize"
    by (rule float_of_long_lower[OF m0 assms(5,6)])
  ultimately have c0: "sint min_chunksize \<le> np_clip c min_chunksize max_chunksize"
    by (simp add: np_clip_def)
  from chunk_loop_result[OF loop]
  have cs: "np_clip c min_chunksize max_chunksize \<le> chunk_size" "num_dicts mod chunk_size \<noteq> 1"
    by auto
  from c0 cs(1) assms(4) have pos: "0 < chunk_size" by simp
  have "0 \<le> q" using py_int_truediv_nonneg[OF _ pos q] assms(2) by simp
  then have "1 \<le> num_cpus_used" using assms(3) by (simp add: w Let_def min_def)
  with c0 cs show ?thesis by simp
qed

theorem calc_chunksize_guarantees_witness:
  "calc_chunksize 8 100 4 2000 = Some (Inr (4, 8)) \<and> (1::int) \<le> 100 \<and> (1::nat) \<le> 8 \<and>
   1 \<le> sint (4 :: 64 word) \<and> sint (4 :: 64 word) \<le> sint (2000 :: 64 word) \<and>
   sint (4 :: 64 word) \<le> 2 ^ 53 \<and>
   sint (4 :: 64 word) \<le> 4 \<and> (1::int) \<le> 8 \<and> (100::int) mod 4 \<noteq> 1"
proof -
  have "(100::int) div 8 < 2 ^ 53" by simp
  from py_ceil_div_bounds[OF _ _ this] obtain d
    where d: "py_ceil_div 100 8 = Inr d" and d0: "0 \<le> d" and d1: "d \<le> 100 div 8 + 1" by auto
  from d0 d1 have "d div 5 \<le> 2" by simp
  then have "d div 5 < 2 ^ 53" by simp
  from py_ceil_div_bounds[OF d0 _ this] obtain c
    where c: "py_ceil_div d 5 = Inr c" and c0: "0 \<le> c" and c1: "c \<le> d div 5 + 1" by auto
  from c1 \<open>d div 5 \<le> 2\<close> have c3: "c \<le> 3" by simp
  have f4: "float_of_long 4 = 4" by (rule trans[OF float_of_long_exact]) simp_all
  have f2000: "float_of_long 2000 = 2000" by (rule trans[OF float_of_long_exact]) simp_all
  have clip: "np_clip c 4 2000 = 4" using c3 by (simp add: np_clip_def f4 f2000)
  have loop: "chunk_loop 100 4 = Some (Inr 4)" by (rule chunk_loop_stops) simp_all
  have q: "py_int_truediv 100 4 = Inr 25" by (rule trans[OF py_int_truediv_exact]) simp_all
  have run: "calc_chunksize 8 100 4 2000 = Some (Inr (4, 8))"
    by (simp add: calc_chunksize_def Let_def d c clip loop q)
  from calc_chunksize_guarantees[OF run] show ?thesis using run by simp
qed

section \<open>Properties of the codec\<close>

subsection \<open>Hex digits\<close>

lemma hex_digit_cases:
  "is_hex_digit c \<longleftrightarrow>
     (48 \<le> (of_char c :: nat) \<and> (of_char c :: nat) \<le> 57) \<or>
     (97 \<le> (of_char c :: nat) \<and> (of_char c :: nat) \<le> 102) \<or>
     (65 \<le> (of_char c :: nat) \<and> (of_char c :: nat) \<le> 70)"
  by (auto simp: is_hex_digit_def hex_digit_val_def Let_def)

lemma hex_digit_not_special:
  assumes "is_hex_digit c"
  shows "\<not> py_isspace c" and "c \<noteq> CHR ''+''" and "c \<noteq> CHR ''-''" and "c \<noteq> CHR ''_''"
    and "c \<noteq> CHR ''x''" and "c \<noteq> CHR ''X''"
  using assms by (auto simp: hex_digit_cases py_isspace_def)

lemma hex_digit_val_less: "hex_digit_val c = Some d \<Longrightarrow> d < 16"
  by (auto simp: hex_digit_val_def Let_def split: if_splits)

lemma hex_char_0: "hex_char 0 = CHR ''0''"
  by (simp add: hex_char_def char_of_eq_iff take_bit_eq_mod)

lemma hex_char_not_sign: "d < 16 \<Longrightarrow> hex_char d \<noteq> CHR ''+'' \<and> hex_char d \<noteq> CHR ''-''"
  by (auto simp: hex_char_def char_of_eq_iff take_bit_eq_mod)

lemma hex_char_digit_val:
  assumes "hex_digit_val c = Some d"
  shows "hex_char d = py_lower_char c"
proof -
  let ?k = "of_char c :: nat"
  have ck: "char_of ?k = c" by simp
  from assms consider (dec) "48 \<le> ?k" "?k \<le> 57" "d = ?k - 48"
    | (low) "97 \<le> ?k" "?k \<le> 102" "d = ?k - 87"
    | (up) "65 \<le> ?k" "?k \<le> 70" "d = ?k - 55"
    by (auto simp: hex_digit_val_def Let_def split: if_splits)
  then show ?thesis
  proof cases
    case dec
    then have e: "48 + d = ?k" and sm: "d < 10" and nr: "\<not> (65 \<le> ?k \<and> ?k \<le> 90)"
      by simp_all
    have "hex_char d = char_of (48 + d)" using sm by (simp add: hex_char_def)
    also have "\<dots> = c" by (simp only: e ck)
    also have "c = py_lower_char c" using nr by (auto simp: py_lower_char_def Let_def)
    finally show ?thesis .
  next
    case low
    then have e: "87 + d = ?k" and nd: "\<not> d < 10" and nr: "\<not> (65 \<le> ?k \<and> ?k \<le> 90)"
      by simp_all
    have "hex_char d = char_of (87 + d)" using nd by (simp add: hex_char_def)
    also have "\<dots> = c" by (simp only: e ck)
    also have "c = py_lower_char c" using nr by (auto simp: py_lower_char_def Let_def)
    finally show ?thesis .
  next
    case up
    then have e: "87 + d = ?k + 32" and nd: "\<not> d < 10" and r: "65 \<le> ?k \<and> ?k \<le> 90"
      by simp_all
    have "hex_char d = char_of (87 + d)" using nd by (simp add: hex_char_def)
    also have "\<dots> = char_of (?k + 32)" by (simp only: e)
    also have "\<dots> = py_lower_char c" using r by (simp add: py_lower_char_def Let_def)
    finally show ?thesis .
  qed
qed

lemma hex_digit_val_lower: "hex_digit_val (py_lower_char c) = hex_digit_val c"
  by (auto simp: hex_digit_val_def py_lower_char_def Let_def)

lemma hex_digit_val_upper: "hex_digit_val (py_upper_char c) = hex_digit_val c"
  by (auto simp: hex_digit_val_def py_upper_char_def Let_def)

lemma list_all_take_drop:
  "list_all P xs \<Longrightarrow> list_all P (take n xs) \<and> list_all P (drop n xs)"
  by (auto simp: list_all_iff dest: in_set_takeD in_set_dropD)

lemma py_in_set: "py_in p s \<Longrightarrow> set p \<subseteq> set s"
proof (induction s)
  case Nil
  then show ?case by simp
next
  case (Cons a s)
  then show ?case using set_mono_prefix[of p "a # s"] by auto
qed

subsection \<open>Parsing a string of hex digits\<close>

lemma digits_value_snoc:
  "digits_value (s @ [c]) =
     16 * digits_value s + (case hex_digit_val c of Some d \<Rightarrow> d | None \<Rightarrow> 0)"
  by (simp add: digits_value_def)

lemma digits_value_map:
  assumes "\<And>c. hex_digit_val (f c) = hex_digit_val c"
  shows "digits_value (map f s) = digits_value s"
  by (simp add: digits_value_def foldl_map assms)

lemma py_int16_hex:
  assumes "list_all is_hex_digit s" and "s \<noteq> []"
  shows "py_int16 s = Inr (int (digits_value s))"
proof -
  from assms(2) obtain a t where s: "s = a # t" by (cases s) auto
  have all: "\<forall>c\<in>set s. is_hex_digit c" using assms(1) by (simp add: list_all_iff)
  then have "is_hex_digit (hd s)" using s by simp
  note na = hex_digit_not_special[OF this]
  have s1: "dropWhile py_isspace s = s" using na(1) s by simp
  have s2: "(if s \<noteq> [] \<and> (hd s = CHR ''+'' \<or> hd s = CHR ''-'') then tl s else s) = s"
    using na(2,3) by simp
  have s3: "(case s of
               a # b # r \<Rightarrow>
                 if a = CHR ''0'' \<and> (b = CHR ''x'' \<or> b = CHR ''X'')
                 then (if r \<noteq> [] \<and> hd r = CHR ''_'' then tl r else r)
                 else s
             | _ \<Rightarrow> s) = s"
  proof (cases t)
    case Nil
    then show ?thesis by (simp add: s)
  next
    case (Cons b r)
    with all s have "is_hex_digit b" by simp
    from hex_digit_not_special(5,6)[OF this] show ?thesis by (simp add: s Cons)
  qed
  have body: "takeWhile (\<lambda>c. is_hex_digit c \<or> c = CHR ''_'') s = s"
    using all by (simp add: takeWhile_eq_all_conv)
  have rest: "dropWhile (\<lambda>c. is_hex_digit c \<or> c = CHR ''_'') s = []"
    using all by simp
  have nu: "CHR ''_'' \<notin> set s" using all hex_digit_not_special(4) by blast
  have f: "filter (\<lambda>c. c \<noteq> CHR ''_'') s = s"
    using nu by (simp add: filter_id_conv) blast
  have nin: "\<not> py_in ''__'' s" using nu py_in_set[of "''__''" s] by auto
  have nl: "last s \<noteq> CHR ''_''" using nu assms(2) by (metis last_in_set)
  have nh: "hd s \<noteq> CHR ''_''" by (rule na(4))
  show ?thesis
    unfolding py_int16_def Let_def s1 s2 s3 body rest f
    using nin nl nh na(3) assms(2) by simp
qed

subsection \<open>Printing and padding\<close>

lemma hex_digits_small: "n < 16 \<Longrightarrow> hex_digits n = [hex_char n]"
  by (subst hex_digits.simps) simp

lemma hex_digits_step:
  "0 < v \<Longrightarrow> d < 16 \<Longrightarrow> hex_digits (16 * v + d) = hex_digits v @ [hex_char d]"
  by (subst hex_digits.simps) simp

lemma hex_digits_no_sign:
  "hex_digits n \<noteq> [] \<and> hd (hex_digits n) \<noteq> CHR ''+'' \<and> hd (hex_digits n) \<noteq> CHR ''-''"
proof (induction n rule: hex_digits.induct)
  case (1 n)
  show ?case
  proof (cases "n < 16")
    case True
    then show ?thesis using hex_char_not_sign[of n] by (simp add: hex_digits_small)
  next
    case False
    from 1[OF False] have "hex_digits (n div 16) \<noteq> []"
      and "hd (hex_digits (n div 16)) \<noteq> CHR ''+''" and "hd (hex_digits (n div 16)) \<noteq> CHR ''-''"
      by simp_all
    moreover have "hex_digits n = hex_digits (n div 16) @ [hex_char (n mod 16)]"
      using False by (subst hex_digits.simps) simp
    ultimately show ?thesis by simp
  qed
qed

lemma zfill_no_sign:
  assumes "s \<noteq> []" and "hd s \<noteq> CHR ''+''" and "hd s \<noteq> CHR ''-''"
  shows "zfill w s = replicate (nat w - length s) CHR ''0'' @ s"
  using assms by (auto simp: zfill_def Let_def)

lemma hex_digits_value:
  assumes "list_all is_hex_digit s" and "s \<noteq> []"
  shows "length (hex_digits (digits_value s)) \<le> length s \<and>
         replicate (length s - length (hex_digits (digits_value s))) CHR ''0''
           @ hex_digits (digits_value s) = map py_lower_char s"
  using assms
proof (induction s rule: rev_induct)
  case Nil
  then show ?case by simp
next
  case (snoc c s)
  from snoc.prems have c: "is_hex_digit c" and s: "list_all is_hex_digit s" by simp_all
  from c obtain d where d: "hex_digit_val c = Some d" by (auto simp: is_hex_digit_def)
  then have d16: "d < 16" by (rule hex_digit_val_less)
  have hc: "hex_char d = py_lower_char c" using d by (rule hex_char_digit_val)
  have val: "digits_value (s @ [c]) = 16 * digits_value s + d"
    by (simp add: digits_value_snoc d)
  show ?case
  proof (cases "digits_value s = 0")
    case True
    then have h: "hex_digits (digits_value (s @ [c])) = [py_lower_char c]"
      using d16 hc by (simp add: val hex_digits_small)
    have "map py_lower_char s = replicate (length s) CHR ''0''"
    proof (cases "s = []")
      case True
      then show ?thesis by simp
    next
      case False
      from snoc.IH[OF s False] True
      have "replicate (length s - 1) CHR ''0'' @ [CHR ''0''] = map py_lower_char s"
        by (simp add: hex_digits_small hex_char_0)
      moreover have "replicate (length s - 1) CHR ''0'' @ [CHR ''0''] = replicate (length s) CHR ''0''"
        using False by (cases s) (simp_all add: replicate_append_same)
      ultimately show ?thesis by simp
    qed
    with h show ?thesis by simp
  next
    case False
    then have h: "hex_digits (digits_value (s @ [c])) = hex_digits (digits_value s) @ [py_lower_char c]"
      using d16 hc by (simp add: val hex_digits_step)
    from False have "s \<noteq> []" by (auto simp: digits_value_def)
    from snoc.IH[OF s this] show ?thesis by (simp add: h)
  qed
qed

lemma zfill_hex_piece:
  assumes "list_all is_hex_digit s" and "s \<noteq> []" and "w = int (length s)"
  shows "zfill w (drop 2 (py_hex (int (digits_value s)))) = map py_lower_char s"
proof -
  have "drop 2 (py_hex (int (digits_value s))) = hex_digits (digits_value s)"
    by (simp add: py_hex_def)
  moreover have "zfill w (hex_digits (digits_value s)) =
      replicate (nat w - length (hex_digits (digits_value s))) CHR ''0'' @ hex_digits (digits_value s)"
    using hex_digits_no_sign[of "digits_value s"] by (intro zfill_no_sign) simp_all
  ultimately show ?thesis using hex_digits_value[OF assms(1,2)] assms(3) by simp
qed


subsection \<open>The slices of an identifier\<close>

lemma slices_concat: "a \<le> b \<Longrightarrow> take a xs @ drop a (take b xs) @ drop b xs = xs"
proof -
  assume "a \<le> b"
  then have "take a xs = take a (take b xs)" by (simp add: min_def)
  then have "take a xs @ drop a (take b xs) = take b xs" by (simp only: append_take_drop_id)
  then show ?thesis by (simp only: append_assoc [symmetric] append_take_drop_id)
qed

lemma id_parts_24:
  "length ident = 24 \<Longrightarrow>
     id_parts ident = (take 8 ident, drop 8 (take 16 ident), drop 16 ident)"
  by (simp add: id_parts_def py_trunc_div_def)

lemma id_parts_32:
  "length ident = 32 \<Longrightarrow>
     id_parts ident = (take 10 ident, drop 10 (take 20 ident), drop 20 ident)"
  by (simp add: id_parts_def py_trunc_div_def)

lemma id_parts_40:
  "length ident = 40 \<Longrightarrow>
     id_parts ident = (take 14 ident, drop 14 (take 27 ident), drop 27 ident)"
  by (simp add: id_parts_def)

lemma id_parts_shape:
  assumes "length ident \<in> {24, 32, 40}" and "id_parts ident = (h1, h2, h3)"
  shows "h1 @ h2 @ h3 = ident"
    and "length ident = 40 \<longrightarrow> length h1 = 14 \<and> length h2 = 13 \<and> length h3 = 13"
    and "length ident = 24 \<longrightarrow> length h1 = 8 \<and> length h2 = 8 \<and> length h3 = 8"
    and "length ident = 32 \<longrightarrow> length h1 = 10 \<and> length h2 = 10 \<and> length h3 = 12"
proof -
  from assms(1) consider "length ident = 24" | "length ident = 32" | "length ident = 40" by auto
  then show "h1 @ h2 @ h3 = ident"
  proof cases
    case 1
    with assms(2) show ?thesis using slices_concat[of 8 16 ident] by (simp add: id_parts_24)
  next
    case 2
    with assms(2) show ?thesis using slices_concat[of 10 20 ident] by (simp add: id_parts_32)
  next
    case 3
    with assms(2) show ?thesis using slices_concat[of 14 27 ident] by (simp add: id_parts_40)
  qed
  show "length ident = 40 \<longrightarrow> length h1 = 14 \<and> length h2 = 13 \<and> length h3 = 13"
    using assms(2) by (auto simp: id_parts_40)
  show "length ident = 24 \<longrightarrow> length h1 = 8 \<and> length h2 = 8 \<and> length h3 = 8"
    using assms(2) by (auto simp: id_parts_24)
  show "length ident = 32 \<longrightarrow> length h1 = 10 \<and> length h2 = 10 \<and> length h3 = 12"
    using assms(2) by (auto simp: id_parts_32)
qed

lemma id_parts_hex:
  assumes "list_all is_hex_digit ident" and "id_parts ident = (h1, h2, h3)"
  shows "list_all is_hex_digit h1 \<and> list_all is_hex_digit h2 \<and> list_all is_hex_digit h3"
proof -
  have "set h1 \<subseteq> set ident \<and> set h2 \<subseteq> set ident \<and> set h3 \<subseteq> set ident"
    using assms(2)
    by (auto simp: id_parts_def Let_def split: if_splits dest: in_set_takeD in_set_dropD)
  with assms(1) show ?thesis by (auto simp: list_all_iff)
qed

lemma id_parts_map:
  "id_parts (map f ident) =
     (case id_parts ident of (h1, h2, h3) \<Rightarrow> (map f h1, map f h2, map f h3))"
  by (simp add: id_parts_def Let_def take_map drop_map)

lemma encode_id_hex:
  assumes "list_all is_hex_digit ident" and "length ident \<in> {24, 32, 40}"
    and "id_parts ident = (h1, h2, h3)"
  shows "encode_id (Some ident) =
           Inr (int (length ident), int (digits_value h1), int (digits_value h2),
                int (digits_value h3))"
proof -
  from id_parts_shape[OF assms(2,3)] assms(2)
  have ne: "h1 \<noteq> []" "h2 \<noteq> []" "h3 \<noteq> []" by auto
  from id_parts_hex[OF assms(1,3)]
  have hx: "list_all is_hex_digit h1" "list_all is_hex_digit h2" "list_all is_hex_digit h3"
    by simp_all
  have "py_int16 h1 = Inr (int (digits_value h1))" using hx(1) ne(1) by (rule py_int16_hex)
  moreover have "py_int16 h2 = Inr (int (digits_value h2))" using hx(2) ne(2) by (rule py_int16_hex)
  moreover have "py_int16 h3 = Inr (int (digits_value h3))" using hx(3) ne(3) by (rule py_int16_hex)
  ultimately show ?thesis using assms(2,3) by (auto simp: encode_id_def)
qed

lemma py_int16_not_assertion: "py_int16 s \<noteq> Inl AssertionError"
  by (simp add: py_int16_def Let_def)

subsection \<open>Decoding what was encoded\<close>

text \<open>
  For identifiers of 24 and of 40 hex digits the widths \<^verbatim>\<open>decode_id\<close> pads to are the
  widths \<^verbatim>\<open>encode_id\<close> cut, and the identifier comes back in lower case.
\<close>

lemma decode_encode_24_40:
  assumes "list_all is_hex_digit ident" and "length ident = 24 \<or> length ident = 40"
  shows "decode_encode (Some ident) = Inr (py_lower ident)"
proof -
  obtain h1 h2 h3 where parts: "id_parts ident = (h1, h2, h3)" by (cases "id_parts ident")
  from assms(2) have len: "length ident \<in> {24, 32, 40}" by auto
  note shape = id_parts_shape[OF len parts]
  from id_parts_hex[OF assms(1) parts]
  have hx: "list_all is_hex_digit h1" "list_all is_hex_digit h2" "list_all is_hex_digit h3"
    by simp_all
  have enc: "encode_id (Some ident) =
      Inr (int (length ident), int (digits_value h1), int (digits_value h2), int (digits_value h3))"
    by (rule encode_id_hex[OF assms(1) len parts])
  have cat: "map py_lower_char h1 @ map py_lower_char h2 @ map py_lower_char h3 = py_lower ident"
    unfolding py_lower_def shape(1)[symmetric] by simp
  from assms(2) show ?thesis
  proof
    assume l: "length ident = 24"
    with shape(3) have w: "length h1 = 8" "length h2 = 8" "length h3 = 8" by simp_all
    then have ne: "h1 \<noteq> []" "h2 \<noteq> []" "h3 \<noteq> []" by auto
    have z: "zfill 8 (drop 2 (py_hex (int (digits_value h1)))) = map py_lower_char h1"
      "zfill 8 (drop 2 (py_hex (int (digits_value h2)))) = map py_lower_char h2"
      "zfill 8 (drop 2 (py_hex (int (digits_value h3)))) = map py_lower_char h3"
      using hx ne w by (simp_all add: zfill_hex_piece)
    have "decode_id 24 (int (digits_value h1)) (int (digits_value h2)) (int (digits_value h3))
            = Inr (py_lower ident)"
      unfolding decode_id_def Let_def
      by (simp add: py_trunc_div_def z cat) (simp add: py_lower_def l)
    with enc l show ?thesis by (simp add: decode_encode_def)
  next
    assume l: "length ident = 40"
    with shape(2) have w: "length h1 = 14" "length h2 = 13" "length h3 = 13" by simp_all
    then have ne: "h1 \<noteq> []" "h2 \<noteq> []" "h3 \<noteq> []" by auto
    have z: "zfill 14 (drop 2 (py_hex (int (digits_value h1)))) = map py_lower_char h1"
      "zfill 13 (drop 2 (py_hex (int (digits_value h2)))) = map py_lower_char h2"
      "zfill 13 (drop 2 (py_hex (int (digits_value h3)))) = map py_lower_char h3"
      using hx ne w by (simp_all add: zfill_hex_piece)
    have "decode_id 40 (int (digits_value h1)) (int (digits_value h2)) (int (digits_value h3))
            = Inr (py_lower ident)"
      unfolding decode_id_def Let_def
      by (simp add: z cat) (simp add: py_lower_def l)
    with enc l show ?thesis by (simp add: decode_encode_def)
  qed
qed


lemma encode_id_map:
  assumes "\<And>c. hex_digit_val (f c) = hex_digit_val c"
    and "list_all is_hex_digit ident" and "length ident \<in> {24, 32, 40}"
  shows "encode_id (Some (map f ident)) = encode_id (Some ident)"
proof -
  obtain h1 h2 h3 where parts: "id_parts ident = (h1, h2, h3)" by (cases "id_parts ident")
  then have parts': "id_parts (map f ident) = (map f h1, map f h2, map f h3)"
    by (simp add: id_parts_map)
  have hex': "list_all is_hex_digit (map f ident)"
    using assms(2) by (simp add: list_all_iff is_hex_digit_def assms(1))
  have len': "length (map f ident) \<in> {24, 32, 40}" using assms(3) by simp
  show ?thesis
    unfolding encode_id_hex[OF hex' len' parts'] encode_id_hex[OF assms(2,3) parts]
    by (simp add: digits_value_map[OF assms(1)])
qed

text \<open>
  The failure is not particular to one identifier: every identifier of 32 hex digits whose
  21st digit is \<^verbatim>\<open>0\<close> is encoded, and decoding what was encoded fails the assertion.
\<close>

lemma length_zfill_hex:
  "length (zfill w (hex_digits n)) = max (nat w) (length (hex_digits n))"
  using zfill_no_sign[of "hex_digits n" w] hex_digits_no_sign[of n] by (simp add: max_def)

lemma digits_value_leading_zero: "digits_value (CHR ''0'' # t) = digits_value t"
  by (simp add: digits_value_def hex_digit_val_def)

lemma hex_digits_length:
  assumes "list_all is_hex_digit s" and "s \<noteq> []"
  shows "length (hex_digits (digits_value s)) \<le> length s"
  using hex_digits_value[OF assms] by simp

lemma decode_encode_32_leading_zero:
  assumes "list_all is_hex_digit ident" and "length ident = 32" and "ident ! 20 = CHR ''0''"
  shows "decode_encode (Some ident) = Inl AssertionError"
proof -
  let ?h1 = "take 10 ident" and ?h2 = "drop 10 (take 20 ident)" and ?h3 = "drop 20 ident"
  let ?t = "drop 21 ident"
  have parts: "id_parts ident = (?h1, ?h2, ?h3)" using assms(2) by (rule id_parts_32)
  have len: "length ident \<in> {24, 32, 40}" using assms(2) by simp
  from id_parts_hex[OF assms(1) parts]
  have hx: "list_all is_hex_digit ?h1" "list_all is_hex_digit ?h2" "list_all is_hex_digit ?h3"
    by simp_all
  have h3: "?h3 = CHR ''0'' # ?t"
    using assms(2,3) Cons_nth_drop_Suc[of 20 ident] by simp
  have t: "list_all is_hex_digit ?t" "?t \<noteq> []" "length ?t = 11"
    using hx(3) assms(2) unfolding h3 by simp_all
  have ne: "?h1 \<noteq> []" "?h2 \<noteq> []" using assms(2) by auto
  have l1: "length (hex_digits (digits_value ?h1)) \<le> 10"
    using hex_digits_length[OF hx(1) ne(1)] assms(2) by simp
  have l2: "length (hex_digits (digits_value ?h2)) \<le> 10"
    using hex_digits_length[OF hx(2) ne(2)] assms(2) by simp
  have l3: "length (hex_digits (digits_value ?h3)) \<le> 11"
    using hex_digits_length[OF t(1,2)] t(3) by (simp add: h3 digits_value_leading_zero)
  have enc: "encode_id (Some ident) =
      Inr (32, int (digits_value ?h1), int (digits_value ?h2), int (digits_value ?h3))"
    using encode_id_hex[OF assms(1) len parts] assms(2) by simp
  have "length (zfill 10 (hex_digits (digits_value ?h1)) @ zfill 10 (hex_digits (digits_value ?h2))
          @ zfill 10 (hex_digits (digits_value ?h3))) \<le> 31"
    using l1 l2 l3 by (simp add: length_zfill_hex)
  then have "decode_id 32 (int (digits_value ?h1)) (int (digits_value ?h2)) (int (digits_value ?h3))
      = Inl AssertionError"
    by (simp add: decode_id_def Let_def py_trunc_div_def py_hex_def)
  with enc show ?thesis by (simp add: decode_encode_def)
qed

subsection \<open>The claims about the codec\<close>

text \<open>
  C1.  The claim: for every hex identifier of 24, 32 or 40 digits, decoding what
  \<^verbatim>\<open>encode_id\<close> returns gives the identifier back in lower case, and the assertion of
  \<^verbatim>\<open>decode_id\<close> holds.  It fails for 32 digits: \<^verbatim>\<open>encode_id\<close> cuts 10, 10 and 12 digits,
  \<^verbatim>\<open>decode_id\<close> pads each piece to 10 only, and a last piece that starts with a zero
  comes back too short, so that the assertion \<^verbatim>\<open>len(hexa) == len_id\<close> fails.  (For 24 and
  40 digits the claim holds: lemma \<open>decode_encode_24_40\<close>; every identifier of 32 digits
  with a zero in 21st place fails: lemma \<open>decode_encode_32_leading_zero\<close>.)
\<close>

theorem decode_encode_32_assertion_fails:
  "decode_encode (Some ''0123456789abcdef01230456789abcde'') = Inl AssertionError"
proof -
  let ?x = "''0123456789abcdef01230456789abcde''"
  have parts: "id_parts ?x = (''0123456789'', ''abcdef0123'', ''0456789abcde'')"
    by (simp add: id_parts_def py_trunc_div_def)
  have hex: "list_all is_hex_digit ?x"
    by (simp add: is_hex_digit_def hex_digit_val_def)
  have len: "length ?x \<in> {24, 32, 40}" by simp
  have enc: "encode_id (Some ?x) = Inr (32, 0x123456789, 0xabcdef0123, 0x456789abcde)"
    unfolding encode_id_hex[OF hex len parts]
    by (simp add: digits_value_def hex_digit_val_def)
  have dec: "decode_id 32 0x123456789 0xabcdef0123 0x456789abcde = Inl AssertionError"
    by (simp add: decode_id_def py_hex_def hex_digits.simps hex_char_def zfill_def
        py_trunc_div_def Let_def char_of_eq_iff take_bit_eq_mod)
  show ?thesis by (simp only: decode_encode_def enc dec sum.case prod.case)
qed

text \<open>
  C2.  The claim: \<^verbatim>\<open>encode_id\<close> cuts an identifier of 40 digits into 14, 13 and 13
  digits and one of 24 or 32 digits into three equal thirds of \<open>length / 3\<close> digits.
  For 32 digits the pieces are not equal: \<^verbatim>\<open>third = int(32 / 3)\<close> is 10 and the last
  slice \<^verbatim>\<open>id[third*2:]\<close> takes the 12 digits that are left.
\<close>

theorem id_parts_32_not_equal_thirds:
  "\<not> (length (fst (id_parts ''0123456789abcdef01230456789abcde'')) =
        length ''0123456789abcdef01230456789abcde'' div 3 \<and>
      length (fst (snd (id_parts ''0123456789abcdef01230456789abcde''))) =
        length ''0123456789abcdef01230456789abcde'' div 3 \<and>
      length (snd (snd (id_parts ''0123456789abcdef01230456789abcde''))) =
        length ''0123456789abcdef01230456789abcde'' div 3)"
  by (simp add: id_parts_def py_trunc_div_def)

text \<open>
  C2, as amended.  For a hex identifier of 24, 32 or 40 digits the three integers
  \<^verbatim>\<open>encode_id\<close> returns are the base-16 values of three pieces that make up the
  identifier with nothing left over, of 14, 13 and 13 digits for 40, of 8, 8 and 8 digits
  for 24, and of 10, 10 and 12 digits for 32.
\<close>

theorem encode_id_partition:
  assumes "list_all is_hex_digit ident" and "length ident \<in> {24, 32, 40}"
    and "id_parts ident = (h1, h2, h3)"
  shows "encode_id (Some ident) =
           Inr (int (length ident), int (digits_value h1), int (digits_value h2),
                int (digits_value h3)) \<and>
         h1 @ h2 @ h3 = ident \<and>
         (length h1, length h2, length h3) =
           (if length ident = 40 then (14, 13, 13)
            else if length ident = 24 then (8, 8, 8) else (10, 10, 12))"
proof -
  note shape = id_parts_shape[OF assms(2,3)]
  from assms(2) consider "length ident = 24" | "length ident = 32" | "length ident = 40" by auto
  then have "(length h1, length h2, length h3) =
           (if length ident = 40 then (14, 13, 13)
            else if length ident = 24 then (8, 8, 8) else (10, 10, 12))"
    using shape(2,3,4) by cases simp_all
  with encode_id_hex[OF assms] shape(1) show ?thesis by simp
qed

theorem encode_id_partition_witness:
  "list_all is_hex_digit ''0123456789abcdef01230456789abcde'' \<and>
   length ''0123456789abcdef01230456789abcde'' \<in> {24, 32, 40} \<and>
   id_parts ''0123456789abcdef01230456789abcde'' =
     (''0123456789'', ''abcdef0123'', ''0456789abcde'') \<and>
   encode_id (Some ''0123456789abcdef01230456789abcde'') =
     Inr (32, int (digits_value ''0123456789''), int (digits_value ''abcdef0123''),
          int (digits_value ''0456789abcde'')) \<and>
   (length ''0123456789'', length ''abcdef0123'', length ''0456789abcde'') = (10, 10, 12)"
proof -
  let ?x = "''0123456789abcdef01230456789abcde''"
  have parts: "id_parts ?x = (''0123456789'', ''abcdef0123'', ''0456789abcde'')"
    by (simp add: id_parts_def py_trunc_div_def)
  have hex: "list_all is_hex_digit ?x"
    by (simp add: is_hex_digit_def hex_digit_val_def)
  have len: "length ?x \<in> {24, 32, 40}" by simp
  from encode_id_partition[OF hex len parts] hex len parts show ?thesis by simp
qed

text \<open>
  C3.  The claim: \<^verbatim>\<open>encode_id(None)\<close> is \<open>(0, 0, 0, 0)\<close>, and \<^verbatim>\<open>decode_id(0, 0, 0, 0)\<close>
  returns an empty identifier instead of failing.  The first half holds.  The second does
  not: \<^verbatim>\<open>hex(0)[2:]\<close> is \<^verbatim>\<open>"0"\<close>, padding to width 0 leaves it, the three pieces make
  \<^verbatim>\<open>"000"\<close>, and the assertion \<^verbatim>\<open>len(hexa) == len_id\<close> compares 3 with 0.
\<close>

theorem decode_id_absent_sentinel_fails:
  "encode_id None = Inr (0, 0, 0, 0) \<and> decode_id 0 0 0 0 = Inl AssertionError \<and>
   decode_encode None = Inl AssertionError"
proof -
  have enc: "encode_id None = Inr (0, 0, 0, 0)" by (simp add: encode_id_def)
  have dec: "decode_id 0 0 0 0 = Inl AssertionError"
    by (simp add: decode_id_def py_hex_def hex_digits.simps hex_char_def zfill_def
        py_trunc_div_def Let_def)
  show ?thesis by (simp only: decode_encode_def enc dec sum.case prod.case simp_thms)
qed

text \<open>
  C4.  \<^verbatim>\<open>encode_id\<close> fails on its length assertion exactly when its argument is a string
  whose length is not 24, 32 or 40; on \<^verbatim>\<open>None\<close> and on a string of 24, 32 or 40 hex
  digits it returns.
\<close>

theorem encode_id_length_assertion:
  "(encode_id x = Inl AssertionError \<longleftrightarrow> (\<exists>s. x = Some s \<and> length s \<notin> {24, 32, 40})) \<and>
   ((x = None \<or> (\<exists>s. x = Some s \<and> length s \<in> {24, 32, 40} \<and> list_all is_hex_digit s))
      \<longrightarrow> (\<exists>r. encode_id x = Inr r))"
proof (cases x)
  case None
  then show ?thesis by (simp add: encode_id_def)
next
  case (Some s)
  show ?thesis
  proof (cases "length s \<in> {24, 32, 40}")
    case False
    with Some show ?thesis by (simp add: encode_id_def)
  next
    case True
    obtain h1 h2 h3 where parts: "id_parts s = (h1, h2, h3)" by (cases "id_parts s")
    have "encode_id (Some s) \<noteq> Inl AssertionError"
      using True parts py_int16_not_assertion[of h1] py_int16_not_assertion[of h2]
        py_int16_not_assertion[of h3]
      by (auto simp: encode_id_def split: sum.splits)
    moreover have "list_all is_hex_digit s \<Longrightarrow> \<exists>r. encode_id (Some s) = Inr r"
      using encode_id_hex[OF _ True parts] by blast
    ultimately show ?thesis using Some True by auto
  qed
qed

theorem encode_id_length_assertion_witness:
  "encode_id (Some ''abc'') = Inl AssertionError \<and>
   encode_id (Some ''0123456789abcdef01234567'') \<noteq> Inl AssertionError \<and>
   (\<exists>r. encode_id (Some ''0123456789abcdef01234567'') = Inr r) \<and>
   (\<exists>r. encode_id None = Inr r)"
  using encode_id_length_assertion[of "Some ''abc''"]
    encode_id_length_assertion[of "Some ''0123456789abcdef01234567''"]
    encode_id_length_assertion[of None]
  by (simp add: is_hex_digit_def hex_digit_val_def)

text \<open>
  C10.  \<^verbatim>\<open>encode_id\<close> does not depend on the case of the hex digits: an identifier of
  24, 32 or 40 hex digits, its upper-case form and its lower-case form are encoded to the
  same four integers.
\<close>

theorem encode_id_case_insensitive:
  assumes "list_all is_hex_digit ident" and "length ident \<in> {24, 32, 40}"
  shows "encode_id (Some (py_upper ident)) = encode_id (Some ident) \<and>
         encode_id (Some (py_lower ident)) = encode_id (Some ident)"
  unfolding py_upper_def py_lower_def
  using encode_id_map[OF hex_digit_val_upper assms] encode_id_map[OF hex_digit_val_lower assms]
  by simp

theorem encode_id_case_insensitive_witness:
  "list_all is_hex_digit ''0123456789aBcDeF01234567'' \<and>
   length ''0123456789aBcDeF01234567'' \<in> {24, 32, 40} \<and>
   py_upper ''0123456789aBcDeF01234567'' = ''0123456789ABCDEF01234567'' \<and>
   py_lower ''0123456789aBcDeF01234567'' = ''0123456789abcdef01234567'' \<and>
   encode_id (Some ''0123456789ABCDEF01234567'') = encode_id (Some ''0123456789aBcDeF01234567'') \<and>
   encode_id (Some ''0123456789abcdef01234567'') = encode_id (Some ''0123456789aBcDeF01234567'')"
proof -
  let ?x = "''0123456789aBcDeF01234567''"
  have hex: "list_all is_hex_digit ?x"
    by (simp add: is_hex_digit_def hex_digit_val_def)
  have len: "length ?x \<in> {24, 32, 40}" by simp
  have up: "py_upper ?x = ''0123456789ABCDEF01234567''"
    by (simp add: py_upper_def py_upper_char_def char_of_eq_iff take_bit_eq_mod)
  have lo: "py_lower ?x = ''0123456789abcdef01234567''"
    by (simp add: py_lower_def py_lower_char_def char_of_eq_iff take_bit_eq_mod)
  from encode_id_case_insensitive[OF hex len] show ?thesis
    unfolding up lo using hex len by simp
qed


section \<open>Properties of the IOB merge\<close>

subsection \<open>Reading a tag\<close>

lemma py_remove_absent: "\<not> py_in p s \<Longrightarrow> py_remove p s = s"
  by (induction s) auto

lemma code_token_B:
  "code_token_of p = Tag_B x \<longleftrightarrow> py_in ''B-'' p \<and> x = py_remove ''B-'' p"
  by (auto simp: code_token_of_def)

lemma plain_tag_token:
  assumes "plain_iob_tag p"
  shows "code_token_of p = spec_token_of p"
proof -
  from assms consider (O) "p = ''O''"
    | (B) "take 2 p = ''B-''" "\<not> py_in ''B-'' (drop 2 p)" "\<not> py_in ''I-'' (drop 2 p)"
    | (I) "take 2 p = ''I-''" "\<not> py_in ''B-'' (drop 2 p)" "\<not> py_in ''I-'' (drop 2 p)"
    by (auto simp: plain_iob_tag_def)
  then show ?thesis
  proof cases
    case O
    then show ?thesis by (simp add: code_token_of_def spec_token_of_def)
  next
    case B
    have p: "p = ''B-'' @ drop 2 p" using B(1) append_take_drop_id[of 2 p] by simp
    have "py_in ''B-'' (''B-'' @ drop 2 p)" by simp
    moreover have "py_remove ''B-'' (''B-'' @ drop 2 p) = drop 2 p"
      using B(2) by (simp add: py_remove_absent)
    ultimately have "code_token_of (''B-'' @ drop 2 p) = Tag_B (drop 2 p)"
      by (simp only: code_token_of_def) simp
    with p B(1) show ?thesis by (simp add: spec_token_of_def)
  next
    case I
    have p: "p = ''I-'' @ drop 2 p" using I(1) append_take_drop_id[of 2 p] by simp
    have "\<not> py_in ''B-'' (''I-'' @ drop 2 p)" using I(2) by (cases "drop 2 p") simp_all
    moreover have "py_in ''I-'' (''I-'' @ drop 2 p)" by simp
    moreover have "py_remove ''I-'' (''I-'' @ drop 2 p) = drop 2 p"
      using I(3) by (simp add: py_remove_absent)
    ultimately have "code_token_of (''I-'' @ drop 2 p) = Tag_I (drop 2 p)"
      by (simp only: code_token_of_def) simp
    with p I(1) show ?thesis by (simp add: spec_token_of_def)
  qed
qed

subsection \<open>One turn of the loop\<close>

lemma iob_step_O:
  "code_token_of p = Tag_O \<Longrightarrow>
   iob_step st (p, a) =
     (if open_tag st then
        (case append_current st of Inl e \<Rightarrow> Inl e | Inr st' \<Rightarrow> Inr (st'\<lparr>open_tag := False\<rparr>))
      else Inr st)"
  by (auto simp: code_token_of_def iob_step_def split: if_splits)

lemma iob_step_B:
  "code_token_of p = Tag_B x \<Longrightarrow>
   iob_step st (p, a) =
     (case (if open_tag st then append_current st else Inr st) of
        Inl e \<Rightarrow> Inl e
      | Inr st' \<Rightarrow> Inr (st'\<lparr>cur_tag := Some x, cur_span := Some a, open_tag := True\<rparr>))"
  by (auto simp: code_token_of_def iob_step_def split: if_splits)

lemma iob_step_I:
  "code_token_of p = Tag_I x \<Longrightarrow>
   iob_step st (p, a) =
     (if open_tag st then
        (case cur_tag st of
           None \<Rightarrow> Inl UnboundLocalError
         | Some t \<Rightarrow>
             if x = t then
               (case cur_span st of
                  None \<Rightarrow> Inl UnboundLocalError
                | Some c \<Rightarrow>
                    Inr (st\<lparr>objects := (objects st)
                             (c := (objects st c)\<lparr>span_end := span_end (objects st a)\<rparr>)\<rparr>))
             else
               (case append_current st of
                  Inl e \<Rightarrow> Inl e
                | Inr st' \<Rightarrow> Inr (st'\<lparr>open_tag := False\<rparr>)))
      else Inr st)"
  by (auto simp: code_token_of_def iob_step_def Let_def split: if_splits)

lemma iob_step_cases [consumes 1, case_names keep close start restart extend]:
  assumes "cur_bound st"
  obtains
    (keep) "\<not> open_tag st" and "iob_step st (p, a) = Inr st"
      and "code_token_of p = Tag_O \<or> (\<exists>x. code_token_of p = Tag_I x)"
  | (close) t c where "open_tag st" and "cur_tag st = Some t" and "cur_span st = Some c"
      and "iob_step st (p, a) =
             Inr (st\<lparr>merged_spans := merged_spans st @ [c],
                     simple_tags := simple_tags st @ [t], open_tag := False\<rparr>)"
      and "code_token_of p = Tag_O \<or> (\<exists>x. code_token_of p = Tag_I x \<and> x \<noteq> t)"
  | (start) x where "\<not> open_tag st" and "code_token_of p = Tag_B x"
      and "iob_step st (p, a) =
             Inr (st\<lparr>cur_tag := Some x, cur_span := Some a, open_tag := True\<rparr>)"
  | (restart) t c x where "open_tag st" and "cur_tag st = Some t" and "cur_span st = Some c"
      and "code_token_of p = Tag_B x"
      and "iob_step st (p, a) =
             Inr (st\<lparr>merged_spans := merged_spans st @ [c],
                     simple_tags := simple_tags st @ [t],
                     cur_tag := Some x, cur_span := Some a, open_tag := True\<rparr>)"
  | (extend) t c where "open_tag st" and "cur_tag st = Some t" and "cur_span st = Some c"
      and "code_token_of p = Tag_I t"
      and "iob_step st (p, a) =
             Inr (st\<lparr>objects := (objects st)
                      (c := (objects st c)\<lparr>span_end := span_end (objects st a)\<rparr>)\<rparr>)"
proof (cases "open_tag st")
  case False
  show ?thesis
  proof (cases "code_token_of p")
    case Tag_O
    with False show ?thesis by (intro keep) (simp_all add: iob_step_O)
  next
    case (Tag_B x)
    with False show ?thesis by (intro start[of x]) (simp_all add: iob_step_B)
  next
    case (Tag_I x)
    with False show ?thesis by (intro keep) (simp_all add: iob_step_I)
  qed
next
  case True
  with assms obtain t c where tc: "cur_tag st = Some t" "cur_span st = Some c"
    by (auto simp: cur_bound_def)
  have ap: "append_current st =
      Inr (st\<lparr>merged_spans := merged_spans st @ [c], simple_tags := simple_tags st @ [t]\<rparr>)"
    by (simp add: append_current_def tc)
  show ?thesis
  proof (cases "code_token_of p")
    case Tag_O
    with True tc show ?thesis by (intro close[of t c]) (simp_all add: iob_step_O ap)
  next
    case (Tag_B x)
    with True tc show ?thesis by (intro restart[of t c x]) (simp_all add: iob_step_B ap)
  next
    case (Tag_I x)
    show ?thesis
    proof (cases "x = t")
      case True
      with \<open>open_tag st\<close> tc Tag_I show ?thesis
        by (intro extend[of t c]) (simp_all add: iob_step_I)
    next
      case False
      with \<open>open_tag st\<close> tc Tag_I show ?thesis
        by (intro close[of t c]) (simp_all add: iob_step_I ap)
    qed
  qed
qed

lemma iob_run_Nil: "iob_run st [] = iob_finish st"
  by (simp add: iob_run_def)

lemma iob_run_Cons: "iob_step st x = Inr st1 \<Longrightarrow> iob_run st (x # xs) = iob_run st1 xs"
  by (simp add: iob_run_def)

lemma iob_finish_cases [consumes 1, case_names closed opened]:
  assumes "cur_bound st"
  obtains
    (closed) "\<not> open_tag st" and "iob_finish st = Inr st"
  | (opened) t c where "open_tag st" and "cur_tag st = Some t" and "cur_span st = Some c"
      and "iob_finish st =
             Inr (st\<lparr>merged_spans := merged_spans st @ [c],
                     simple_tags := simple_tags st @ [t], open_tag := False\<rparr>)"
proof (cases "open_tag st")
  case False
  then show ?thesis by (intro closed) (simp_all add: iob_finish_def)
next
  case True
  with assms obtain t c where tc: "cur_tag st = Some t" "cur_span st = Some c"
    by (auto simp: cur_bound_def)
  with True show ?thesis
    by (intro opened[of t c]) (simp_all add: iob_finish_def append_current_def)
qed

lemma iob_step_bound:
  assumes "cur_bound st"
  shows "\<exists>st1. iob_step st (p, a) = Inr st1 \<and> cur_bound st1"
  using assms by (cases rule: iob_step_cases[of st p a]) (auto simp: cur_bound_def)

text \<open>The merge never raises: \<^verbatim>\<open>cur_tag\<close> and \<^verbatim>\<open>cur_span\<close> are read only when bound.\<close>

lemma iob_run_returns:
  assumes "cur_bound st"
  shows "\<exists>st'. iob_run st toks = Inr st'"
  using assms
proof (induction toks arbitrary: st)
  case Nil
  then show ?case by (cases rule: iob_finish_cases) (simp_all add: iob_run_Nil)
next
  case (Cons x toks)
  obtain p a where x: "x = (p, a)" by (cases x)
  from iob_step_bound[OF Cons.prems, of p a] obtain st1
    where "iob_step st (p, a) = Inr st1" and "cur_bound st1" by blast
  with Cons.IH[of st1] x show ?case by (simp add: iob_run_Cons)
qed

lemma cur_bound_init: "cur_bound (iob_init h)"
  by (simp add: cur_bound_def iob_init_def)


subsection \<open>The loop against the machine of the specification\<close>

lemma spec_state_closed: "\<not> open_tag st \<Longrightarrow> spec_state_of st = CLOSED"
  by (simp add: spec_state_of_def)

lemma spec_state_open:
  "open_tag st \<Longrightarrow> cur_tag st = Some t \<Longrightarrow> cur_span st = Some c \<Longrightarrow>
   spec_state_of st = OPEN t (objects st c)"
  by (simp add: spec_state_of_def)

lemma read_tokens_Cons:
  "read_tokens h ((p, a) # toks) = (code_token_of p, h a) # read_tokens h toks"
  by (simp add: read_tokens_def)

lemma read_tokens_cong:
  "(\<And>b. b \<in> snd ` set toks \<Longrightarrow> h b = h' b) \<Longrightarrow> read_tokens h toks = read_tokens h' toks"
  by (auto simp: read_tokens_def)

lemma read_tokens_zip:
  "read_tokens h (zip preds spans) = zip (map code_token_of preds) (map h spans)"
  by (auto simp: read_tokens_def zip_map_map)

text \<open>
  One turn of the loop is one step of the machine, as long as the span object of the
  token is none of those the loop has already taken (\<open>R\<close> are the objects of the tokens
  still to come).
\<close>

lemma iob_step_simulates:
  assumes bound: "cur_bound st"
    and fresh: "a \<notin> R" "a \<notin> set (merged_spans st)"
    and cur: "\<And>c. open_tag st \<Longrightarrow> cur_span st = Some c \<Longrightarrow>
                c \<noteq> a \<and> c \<notin> R \<and> c \<notin> set (merged_spans st)"
    and dsj: "set (merged_spans st) \<inter> R = {}"
  shows "\<exists>st1 out.
           iob_step st (p, a) = Inr st1 \<and>
           spec_step (spec_state_of st) (code_token_of p, objects st a) = (out, spec_state_of st1) \<and>
           simple_tags st1 = simple_tags st @ map fst out \<and>
           map (objects st1) (merged_spans st1) = map (objects st) (merged_spans st) @ map snd out \<and>
           cur_bound st1 \<and>
           (\<forall>c. open_tag st1 \<longrightarrow> cur_span st1 = Some c \<longrightarrow> c \<notin> R \<and> c \<notin> set (merged_spans st1)) \<and>
           set (merged_spans st1) \<inter> R = {} \<and>
           (\<forall>b\<in>R. objects st1 b = objects st b)"
  using bound
proof (cases rule: iob_step_cases[of st p a])
  case keep
  from keep(3) have "spec_step CLOSED (code_token_of p, objects st a) = ([], CLOSED)" by auto
  with keep(1,2) bound dsj show ?thesis
    by (intro exI[of _ st] exI[of _ "[]"]) (simp add: spec_state_closed)
next
  case (close t c)
  let ?st1 = "st\<lparr>merged_spans := merged_spans st @ [c],
                 simple_tags := simple_tags st @ [t], open_tag := False\<rparr>"
  from close(5) have "spec_step (OPEN t (objects st c)) (code_token_of p, objects st a)
      = ([(t, objects st c)], CLOSED)" by auto
  moreover have "spec_state_of ?st1 = CLOSED" by (simp add: spec_state_of_def)
  moreover have "c \<notin> R" using cur[OF close(1,3)] by simp
  ultimately show ?thesis using close(1-4) dsj
    by (intro exI[of _ ?st1] exI[of _ "[(t, objects st c)]"])
       (simp add: spec_state_open cur_bound_def)
next
  case (start x)
  let ?st1 = "st\<lparr>cur_tag := Some x, cur_span := Some a, open_tag := True\<rparr>"
  have "spec_state_of ?st1 = OPEN x (objects st a)" by (simp add: spec_state_of_def)
  with start fresh dsj show ?thesis
    by (intro exI[of _ ?st1] exI[of _ "[]"]) (simp add: spec_state_closed cur_bound_def)
next
  case (restart t c x)
  let ?st1 = "st\<lparr>merged_spans := merged_spans st @ [c], simple_tags := simple_tags st @ [t],
                 cur_tag := Some x, cur_span := Some a, open_tag := True\<rparr>"
  have "spec_state_of ?st1 = OPEN x (objects st a)" by (simp add: spec_state_of_def)
  moreover have "c \<noteq> a" "c \<notin> R" using cur[OF restart(1,3)] by simp_all
  ultimately show ?thesis using restart fresh dsj
    by (intro exI[of _ ?st1] exI[of _ "[(t, objects st c)]"])
       (auto simp: spec_state_open cur_bound_def)
next
  case (extend t c)
  let ?st1 = "st\<lparr>objects := (objects st)
                  (c := (objects st c)\<lparr>span_end := span_end (objects st a)\<rparr>)\<rparr>"
  have c: "c \<notin> R" "c \<notin> set (merged_spans st)" using cur[OF extend(1,3)] by simp_all
  have "spec_state_of ?st1 = OPEN t ((objects st c)\<lparr>span_end := span_end (objects st a)\<rparr>)"
    using extend(1-3) by (simp add: spec_state_of_def)
  moreover have "map (objects ?st1) (merged_spans ?st1) = map (objects st) (merged_spans st)"
    using c(2) by (auto simp: map_eq_conv)
  ultimately show ?thesis using extend c dsj
    by (intro exI[of _ ?st1] exI[of _ "[]"]) (auto simp: spec_state_open cur_bound_def)
qed

lemma iob_run_simulates:
  assumes "cur_bound st" and "distinct (map snd toks)"
    and "set (merged_spans st) \<inter> snd ` set toks = {}"
    and "\<And>c. open_tag st \<Longrightarrow> cur_span st = Some c \<Longrightarrow>
            c \<notin> snd ` set toks \<and> c \<notin> set (merged_spans st)"
  shows "\<exists>st'. iob_run st toks = Inr st' \<and>
           simple_tags st' =
             simple_tags st @ map fst (spec_run (spec_state_of st) (read_tokens (objects st) toks)) \<and>
           map (objects st') (merged_spans st') =
             map (objects st) (merged_spans st) @
             map snd (spec_run (spec_state_of st) (read_tokens (objects st) toks))"
  using assms
proof (induction toks arbitrary: st)
  case Nil
  from Nil(1) show ?case
  proof (cases rule: iob_finish_cases)
    case closed
    then show ?thesis by (simp add: iob_run_Nil spec_state_closed read_tokens_def)
  next
    case (opened t c)
    then show ?thesis by (simp add: iob_run_Nil spec_state_open read_tokens_def)
  qed
next
  case (Cons x toks)
  obtain p a where x: "x = (p, a)" by (cases x)
  let ?R = "snd ` set toks"
  have fresh: "a \<notin> ?R" "a \<notin> set (merged_spans st)"
    using Cons.prems(2,3) x by auto
  have cur: "\<And>c. open_tag st \<Longrightarrow> cur_span st = Some c \<Longrightarrow>
                c \<noteq> a \<and> c \<notin> ?R \<and> c \<notin> set (merged_spans st)"
    using Cons.prems(4) x by auto
  have dsj: "set (merged_spans st) \<inter> ?R = {}" using Cons.prems(3) by auto
  from iob_step_simulates[OF Cons.prems(1) fresh cur dsj, of p]
  obtain st1 out where
    stp: "iob_step st (p, a) = Inr st1"
    and spec: "spec_step (spec_state_of st) (code_token_of p, objects st a) = (out, spec_state_of st1)"
    and tags1: "simple_tags st1 = simple_tags st @ map fst out"
    and spans1: "map (objects st1) (merged_spans st1) = map (objects st) (merged_spans st) @ map snd out"
    and b1: "cur_bound st1"
    and c1: "\<forall>c. open_tag st1 \<longrightarrow> cur_span st1 = Some c \<longrightarrow> c \<notin> ?R \<and> c \<notin> set (merged_spans st1)"
    and d1: "set (merged_spans st1) \<inter> ?R = {}"
    and same: "\<forall>b\<in>?R. objects st1 b = objects st b"
    by blast
  have dist: "distinct (map snd toks)" using Cons.prems(2) by simp
  from Cons.IH[OF b1 dist d1] c1 obtain st' where
    run: "iob_run st1 toks = Inr st'"
    and tags': "simple_tags st' =
        simple_tags st1 @ map fst (spec_run (spec_state_of st1) (read_tokens (objects st1) toks))"
    and spans': "map (objects st') (merged_spans st') =
        map (objects st1) (merged_spans st1) @
        map snd (spec_run (spec_state_of st1) (read_tokens (objects st1) toks))"
    by blast
  have rt: "read_tokens (objects st1) toks = read_tokens (objects st) toks"
    using same by (intro read_tokens_cong) auto
  have sr: "spec_run (spec_state_of st) (read_tokens (objects st) (x # toks)) =
      out @ spec_run (spec_state_of st1) (read_tokens (objects st) toks)"
    by (simp add: x read_tokens_Cons spec)
  have "iob_run st (x # toks) = Inr st'" using stp run x by (simp add: iob_run_Cons)
  then show ?case by (simp add: tags' spans' tags1 spans1 rt sr)
qed


subsection \<open>What the loop writes\<close>

lemma iob_step_frame:
  assumes "cur_bound st" and "iob_step st (p, a) = Inr st1"
  shows "(\<forall>b. span_start (objects st1 b) = span_start (objects st b)) \<and>
    (\<forall>b. objects st1 b \<noteq> objects st b \<longrightarrow> open_tag st1 \<and> cur_span st1 = Some b) \<and>
    set (merged_spans st) \<subseteq> set (merged_spans st1) \<and>
    (\<forall>c. open_tag st \<longrightarrow> cur_span st = Some c \<longrightarrow>
           c \<in> set (merged_spans st1) \<or> (open_tag st1 \<and> cur_span st1 = Some c)) \<and>
    set (merged_spans st1) \<subseteq> set (merged_spans st) \<union> {c. open_tag st \<and> cur_span st = Some c} \<and>
    (\<forall>c. open_tag st1 \<longrightarrow> cur_span st1 = Some c \<longrightarrow>
           c = a \<or> (open_tag st \<and> cur_span st = Some c))"
  using assms(1)
proof (cases rule: iob_step_cases[of st p a])
  case keep
  with assms(2) have "st1 = st" by simp
  with keep(1) show ?thesis by simp
next
  case (close t c)
  with assms(2) have "st1 = st\<lparr>merged_spans := merged_spans st @ [c],
                     simple_tags := simple_tags st @ [t], open_tag := False\<rparr>" by simp
  with close(1,3) show ?thesis by auto
next
  case (start x)
  with assms(2) have "st1 = st\<lparr>cur_tag := Some x, cur_span := Some a, open_tag := True\<rparr>" by simp
  with start(1) show ?thesis by auto
next
  case (restart t c x)
  with assms(2) have "st1 = st\<lparr>merged_spans := merged_spans st @ [c],
                     simple_tags := simple_tags st @ [t],
                     cur_tag := Some x, cur_span := Some a, open_tag := True\<rparr>" by simp
  with restart(1,3) show ?thesis by auto
next
  case (extend t c)
  with assms(2) have "st1 = st\<lparr>objects := (objects st)
                      (c := (objects st c)\<lparr>span_end := span_end (objects st a)\<rparr>)\<rparr>" by simp
  with extend(1,3) show ?thesis by auto
qed

lemma iob_run_frame:
  assumes "cur_bound st" and "iob_run st toks = Inr st'"
  shows "(\<forall>b. span_start (objects st' b) = span_start (objects st b)) \<and>
         (\<forall>b. objects st' b \<noteq> objects st b \<longrightarrow> b \<in> set (merged_spans st')) \<and>
         set (merged_spans st) \<subseteq> set (merged_spans st') \<and>
         (\<forall>c. open_tag st \<longrightarrow> cur_span st = Some c \<longrightarrow> c \<in> set (merged_spans st')) \<and>
         set (merged_spans st') \<subseteq>
           set (merged_spans st) \<union> {c. open_tag st \<and> cur_span st = Some c} \<union> snd ` set toks"
  using assms
proof (induction toks arbitrary: st)
  case Nil
  from Nil(1) show ?case
  proof (cases rule: iob_finish_cases)
    case closed
    with Nil(2) have "st' = st" by (simp add: iob_run_Nil)
    with closed(1) show ?thesis by simp
  next
    case (opened t c)
    with Nil(2) have "st' = st\<lparr>merged_spans := merged_spans st @ [c],
                     simple_tags := simple_tags st @ [t], open_tag := False\<rparr>"
      by (simp add: iob_run_Nil)
    with opened(1,3) show ?thesis by auto
  qed
next
  case (Cons x toks)
  obtain p a where x: "x = (p, a)" by (cases x)
  from iob_step_bound[OF Cons.prems(1), of p a] obtain st1
    where stp: "iob_step st (p, a) = Inr st1" and b1: "cur_bound st1" by blast
  from Cons.prems(2) stp x have run1: "iob_run st1 toks = Inr st'" by (simp add: iob_run_Cons)
  note S = iob_step_frame[OF Cons.prems(1) stp]
  note S1 = S[THEN conjunct1]
    and S2 = S[THEN conjunct2, THEN conjunct1]
    and S3 = S[THEN conjunct2, THEN conjunct2, THEN conjunct1]
    and S4 = S[THEN conjunct2, THEN conjunct2, THEN conjunct2, THEN conjunct1]
    and S5 = S[THEN conjunct2, THEN conjunct2, THEN conjunct2, THEN conjunct2, THEN conjunct1]
    and S6 = S[THEN conjunct2, THEN conjunct2, THEN conjunct2, THEN conjunct2, THEN conjunct2]
  note F = Cons.IH[OF b1 run1]
  note F1 = F[THEN conjunct1]
    and F2 = F[THEN conjunct2, THEN conjunct1]
    and F3 = F[THEN conjunct2, THEN conjunct2, THEN conjunct1]
    and F4 = F[THEN conjunct2, THEN conjunct2, THEN conjunct2, THEN conjunct1]
    and F5 = F[THEN conjunct2, THEN conjunct2, THEN conjunct2, THEN conjunct2]
  have G1: "\<forall>b. span_start (objects st' b) = span_start (objects st b)"
    using F1 S1 by simp
  have G2: "\<forall>b. objects st' b \<noteq> objects st b \<longrightarrow> b \<in> set (merged_spans st')"
  proof (intro allI impI)
    fix b assume neq: "objects st' b \<noteq> objects st b"
    show "b \<in> set (merged_spans st')"
    proof (cases "objects st' b = objects st1 b")
      case True
      with neq have "objects st1 b \<noteq> objects st b" by simp
      with S2 have "open_tag st1 \<and> cur_span st1 = Some b" by blast
      with F4 show ?thesis by blast
    next
      case False
      with F2 show ?thesis by blast
    qed
  qed
  have G3: "set (merged_spans st) \<subseteq> set (merged_spans st')"
    using F3 S3 by blast
  have G4: "\<forall>c. open_tag st \<longrightarrow> cur_span st = Some c \<longrightarrow> c \<in> set (merged_spans st')"
  proof (intro allI impI)
    fix c assume "open_tag st" and "cur_span st = Some c"
    with S4 have "c \<in> set (merged_spans st1) \<or> (open_tag st1 \<and> cur_span st1 = Some c)" by blast
    then show "c \<in> set (merged_spans st')"
    proof
      assume "c \<in> set (merged_spans st1)"
      with F3 show ?thesis by blast
    next
      assume "open_tag st1 \<and> cur_span st1 = Some c"
      with F4 show ?thesis by blast
    qed
  qed
  have G5: "set (merged_spans st') \<subseteq>
           set (merged_spans st) \<union> {c. open_tag st \<and> cur_span st = Some c} \<union> snd ` set (x # toks)"
  proof
    fix b assume "b \<in> set (merged_spans st')"
    with F5 consider "b \<in> set (merged_spans st1)" | "open_tag st1 \<and> cur_span st1 = Some b"
      | "b \<in> snd ` set toks" by blast
    then show "b \<in> set (merged_spans st) \<union> {c. open_tag st \<and> cur_span st = Some c}
                 \<union> snd ` set (x # toks)"
    proof cases
      case 1
      with S5 show ?thesis by blast
    next
      case 2
      with S6 have "b = a \<or> (open_tag st \<and> cur_span st = Some b)" by blast
      then show ?thesis using x by auto
    next
      case 3
      then show ?thesis by simp
    qed
  qed
  show ?case by (rule conjI[OF G1 conjI[OF G2 conjI[OF G3 conjI[OF G4 G5]]]])
qed

subsection \<open>Tags and spans are appended together\<close>

lemma iob_step_aligned:
  assumes "cur_bound st" and "iob_step st (p, a) = Inr st1"
    and len: "length (simple_tags st) = length (merged_spans st)"
    and old: "\<forall>(t, b)\<in>set (zip (simple_tags st) (merged_spans st)). Q t b"
    and cur: "\<forall>t c. open_tag st \<longrightarrow> cur_tag st = Some t \<longrightarrow> cur_span st = Some c \<longrightarrow> Q t c"
    and new: "py_in ''B-'' p \<longrightarrow> Q (py_remove ''B-'' p) a"
  shows "length (simple_tags st1) = length (merged_spans st1) \<and>
    (\<forall>(t, b)\<in>set (zip (simple_tags st1) (merged_spans st1)). Q t b) \<and>
    (\<forall>t c. open_tag st1 \<longrightarrow> cur_tag st1 = Some t \<longrightarrow> cur_span st1 = Some c \<longrightarrow> Q t c)"
  using assms(1)
proof (cases rule: iob_step_cases[of st p a])
  case keep
  with assms(2) have "st1 = st" by simp
  with len old cur show ?thesis by simp
next
  case (close t c)
  with assms(2) have st1: "st1 = st\<lparr>merged_spans := merged_spans st @ [c],
                     simple_tags := simple_tags st @ [t], open_tag := False\<rparr>" by simp
  from cur close(1-3) have "Q t c" by blast
  with len old show ?thesis unfolding st1 by simp
next
  case (start x)
  with assms(2) have st1: "st1 = st\<lparr>cur_tag := Some x, cur_span := Some a, open_tag := True\<rparr>"
    by simp
  from start(2) new have "Q x a" by (simp add: code_token_B)
  with len old show ?thesis unfolding st1 by simp
next
  case (restart t c x)
  with assms(2) have st1: "st1 = st\<lparr>merged_spans := merged_spans st @ [c],
                     simple_tags := simple_tags st @ [t],
                     cur_tag := Some x, cur_span := Some a, open_tag := True\<rparr>" by simp
  from cur restart(1-3) have "Q t c" by blast
  moreover from restart(4) new have "Q x a" by (simp add: code_token_B)
  ultimately show ?thesis using len old unfolding st1 by simp
next
  case (extend t c)
  with assms(2) have st1: "st1 = st\<lparr>objects := (objects st)
                      (c := (objects st c)\<lparr>span_end := span_end (objects st a)\<rparr>)\<rparr>" by simp
  from len old cur show ?thesis unfolding st1 by simp
qed

lemma iob_run_aligned:
  assumes "cur_bound st" and "iob_run st toks = Inr st'"
    and "length (simple_tags st) = length (merged_spans st)"
    and "\<forall>(t, b)\<in>set (zip (simple_tags st) (merged_spans st)). Q t b"
    and "\<forall>t c. open_tag st \<longrightarrow> cur_tag st = Some t \<longrightarrow> cur_span st = Some c \<longrightarrow> Q t c"
    and "\<forall>(p, a)\<in>set toks. py_in ''B-'' p \<longrightarrow> Q (py_remove ''B-'' p) a"
  shows "length (simple_tags st') = length (merged_spans st') \<and>
         (\<forall>(t, b)\<in>set (zip (simple_tags st') (merged_spans st')). Q t b)"
  using assms
proof (induction toks arbitrary: st)
  case Nil
  from Nil(1) show ?case
  proof (cases rule: iob_finish_cases)
    case closed
    with Nil(2) have "st' = st" by (simp add: iob_run_Nil)
    with Nil(3,4) show ?thesis by simp
  next
    case (opened t c)
    with Nil(2) have st': "st' = st\<lparr>merged_spans := merged_spans st @ [c],
                     simple_tags := simple_tags st @ [t], open_tag := False\<rparr>"
      by (simp add: iob_run_Nil)
    from Nil(5) opened(1-3) have "Q t c" by blast
    with Nil(3,4) show ?thesis unfolding st' by simp
  qed
next
  case (Cons x toks)
  obtain p a where x: "x = (p, a)" by (cases x)
  from iob_step_bound[OF Cons.prems(1), of p a] obtain st1
    where stp: "iob_step st (p, a) = Inr st1" and b1: "cur_bound st1" by blast
  from Cons.prems(2) stp x have run1: "iob_run st1 toks = Inr st'" by (simp add: iob_run_Cons)
  have here: "py_in ''B-'' p \<longrightarrow> Q (py_remove ''B-'' p) a" using Cons.prems(6) x by simp
  have rest: "\<forall>(p, a)\<in>set toks. py_in ''B-'' p \<longrightarrow> Q (py_remove ''B-'' p) a"
    using Cons.prems(6) by simp
  note A = iob_step_aligned[OF Cons.prems(1) stp Cons.prems(3,4,5) here]
  show ?case
    by (rule Cons.IH[OF b1 run1 A[THEN conjunct1] A[THEN conjunct2, THEN conjunct1]
          A[THEN conjunct2, THEN conjunct2] rest])
qed


subsection \<open>The claims about the merge\<close>

lemma convert_iob_returns:
  "\<exists>st'. iob_run (iob_init h) (zip preds spans) = Inr st' \<and>
         convert_iob_to_simple_tags h preds spans =
           Inr (simple_tags st', merged_spans st', objects st')"
proof -
  from iob_run_returns[OF cur_bound_init, of h "zip preds spans"]
  obtain st' where "iob_run (iob_init h) (zip preds spans) = Inr st'" by blast
  then show ?thesis by (simp add: convert_iob_to_simple_tags_def)
qed

lemma convert_iob_merged_contents:
  assumes "list_all plain_iob_tag preds" and "distinct spans" and "length preds = length spans"
    and run: "iob_run (iob_init h) (zip preds spans) = Inr st'"
  shows "map (objects st') (merged_spans st') = snd (merge_iob_spans preds (map h spans))"
proof -
  let ?toks = "zip preds spans"
  have snd: "map snd ?toks = spans" using assms(3) by simp
  have i1: "distinct (map snd ?toks)" using assms(2) snd by simp
  have i2: "set (merged_spans (iob_init h)) \<inter> snd ` set ?toks = {}" by (simp add: iob_init_def)
  have i3: "\<And>c. open_tag (iob_init h) \<Longrightarrow> cur_span (iob_init h) = Some c \<Longrightarrow>
      c \<notin> snd ` set ?toks \<and> c \<notin> set (merged_spans (iob_init h))"
    by (simp add: iob_init_def)
  from iob_run_simulates[OF cur_bound_init i1 i2 i3]
  obtain st2 where run2: "iob_run (iob_init h) ?toks = Inr st2"
    and spans: "map (objects st2) (merged_spans st2) =
        map (objects (iob_init h)) (merged_spans (iob_init h)) @
        map snd (spec_run (spec_state_of (iob_init h)) (read_tokens (objects (iob_init h)) ?toks))"
    by blast
  from run run2 have same: "st2 = st'" by simp
  have init: "merged_spans (iob_init h) = []"
    "objects (iob_init h) = h" "spec_state_of (iob_init h) = CLOSED"
    by (simp_all add: iob_init_def spec_state_of_def)
  have eq: "map code_token_of preds = map spec_token_of preds"
    using assms(1) by (auto simp: list_all_iff plain_tag_token)
  have rt: "read_tokens h ?toks = zip (map spec_token_of preds) (map h spans)"
    by (simp only: read_tokens_zip eq)
  from spans show ?thesis
    unfolding same by (simp add: init rt merge_iob_spans_def Let_def)
qed

text \<open>
  C7.  The claim: on every sequence of tags \<^verbatim>\<open>O\<close>, \<^verbatim>\<open>B-<TYPE>\<close>, \<^verbatim>\<open>I-<TYPE>\<close> with as
  many spans, the function is the two-state machine of the specification.  It is not on
  two kinds of input.  The code looks for \<^verbatim>\<open>B-\<close> and \<^verbatim>\<open>I-\<close> anywhere in a tag and
  deletes every occurrence, so \<^verbatim>\<open>I-SUB-ORG\<close> is read as the start of an entity
  \<^verbatim>\<open>I-SUORG\<close> where the machine drops an \<^verbatim>\<open>I-\<close> token.  And the code returns the span
  objects it was given, so when one object occurs twice among the spans, what was merged
  into it for the first entity shows in the second.
\<close>

theorem convert_iob_differs_from_spec:
  "list_all iob_tag [''I-SUB-ORG''] \<and>
   length [''I-SUB-ORG''] = length [0::nat] \<and>
   iob_result (store_of [\<lparr>span_start = 0, span_end = 1\<rparr>]) [''I-SUB-ORG''] [0] \<noteq>
     Inr (merge_iob_spans [''I-SUB-ORG'']
            (map (store_of [\<lparr>span_start = 0, span_end = 1\<rparr>]) [0])) \<and>
   list_all iob_tag [''B-X'', ''I-X'', ''B-Y''] \<and>
   length [''B-X'', ''I-X'', ''B-Y''] = length [0::nat, 1, 0] \<and>
   iob_result (store_of [\<lparr>span_start = 0, span_end = 1\<rparr>, \<lparr>span_start = 2, span_end = 5\<rparr>])
       [''B-X'', ''I-X'', ''B-Y''] [0, 1, 0] \<noteq>
     Inr (merge_iob_spans [''B-X'', ''I-X'', ''B-Y'']
            (map (store_of [\<lparr>span_start = 0, span_end = 1\<rparr>, \<lparr>span_start = 2, span_end = 5\<rparr>])
               [0, 1, 0]))"
proof -
  have a: "iob_result (store_of [\<lparr>span_start = 0, span_end = 1\<rparr>]) [''I-SUB-ORG''] [0] =
      Inr ([''I-SUORG''], [\<lparr>span_start = 0, span_end = 1\<rparr>])"
    by (simp add: iob_result_def convert_iob_to_simple_tags_def iob_run_def iob_init_def
        iob_step_def iob_finish_def append_current_def store_of_def)
  have b: "merge_iob_spans [''I-SUB-ORG'']
      (map (store_of [\<lparr>span_start = 0, span_end = 1\<rparr>]) [0]) = ([], [])"
    by (simp add: merge_iob_spans_def spec_token_of_def)
  have c: "iob_result (store_of [\<lparr>span_start = 0, span_end = 1\<rparr>, \<lparr>span_start = 2, span_end = 5\<rparr>])
       [''B-X'', ''I-X'', ''B-Y''] [0, 1, 0] =
      Inr ([''X'', ''Y''], [\<lparr>span_start = 0, span_end = 5\<rparr>, \<lparr>span_start = 0, span_end = 5\<rparr>])"
    by (simp add: iob_result_def convert_iob_to_simple_tags_def iob_run_def iob_init_def
        iob_step_def iob_finish_def append_current_def store_of_def)
  have d: "merge_iob_spans [''B-X'', ''I-X'', ''B-Y'']
      (map (store_of [\<lparr>span_start = 0, span_end = 1\<rparr>, \<lparr>span_start = 2, span_end = 5\<rparr>])
         [0, 1, 0]) =
      ([''X'', ''Y''], [\<lparr>span_start = 0, span_end = 5\<rparr>, \<lparr>span_start = 0, span_end = 1\<rparr>])"
    by (simp add: merge_iob_spans_def spec_token_of_def store_of_def)
  show ?thesis unfolding a b c d by (simp add: iob_tag_def)
qed

text \<open>
  C7, as amended.  When every tag is \<^verbatim>\<open>O\<close>, \<^verbatim>\<open>B-<TYPE>\<close> or \<^verbatim>\<open>I-<TYPE>\<close> with a type
  name that contains neither \<^verbatim>\<open>B-\<close> nor \<^verbatim>\<open>I-\<close>, and the spans are as many distinct
  objects, the function returns, and the tags and spans it returns are those the machine
  of the specification emits, in the same order.
\<close>

theorem convert_iob_refines_spec:
  assumes "list_all plain_iob_tag preds" and "distinct spans" and "length preds = length spans"
  shows "iob_result h preds spans = Inr (merge_iob_spans preds (map h spans))"
proof -
  let ?toks = "zip preds spans"
  have snd: "map snd ?toks = spans" using assms(3) by simp
  have i1: "distinct (map snd ?toks)" using assms(2) snd by simp
  have i2: "set (merged_spans (iob_init h)) \<inter> snd ` set ?toks = {}" by (simp add: iob_init_def)
  have i3: "\<And>c. open_tag (iob_init h) \<Longrightarrow> cur_span (iob_init h) = Some c \<Longrightarrow>
      c \<notin> snd ` set ?toks \<and> c \<notin> set (merged_spans (iob_init h))"
    by (simp add: iob_init_def)
  from iob_run_simulates[OF cur_bound_init i1 i2 i3]
  obtain st' where run: "iob_run (iob_init h) ?toks = Inr st'"
    and tags: "simple_tags st' = simple_tags (iob_init h) @
        map fst (spec_run (spec_state_of (iob_init h)) (read_tokens (objects (iob_init h)) ?toks))"
    and spans: "map (objects st') (merged_spans st') =
        map (objects (iob_init h)) (merged_spans (iob_init h)) @
        map snd (spec_run (spec_state_of (iob_init h)) (read_tokens (objects (iob_init h)) ?toks))"
    by blast
  have init: "simple_tags (iob_init h) = []" "merged_spans (iob_init h) = []"
    "objects (iob_init h) = h" "spec_state_of (iob_init h) = CLOSED"
    by (simp_all add: iob_init_def spec_state_of_def)
  have eq: "map code_token_of preds = map spec_token_of preds"
    using assms(1) by (auto simp: list_all_iff plain_tag_token)
  have rt: "read_tokens h ?toks = zip (map spec_token_of preds) (map h spans)"
    by (simp only: read_tokens_zip eq)
  have "iob_result h preds spans = Inr (simple_tags st', map (objects st') (merged_spans st'))"
    by (simp add: iob_result_def convert_iob_to_simple_tags_def run)
  then show ?thesis
    by (simp add: tags spans init rt merge_iob_spans_def Let_def)
qed

theorem convert_iob_refines_spec_witness:
  "list_all plain_iob_tag [''O'', ''B-PER'', ''I-PER'', ''O'', ''B-LOC''] \<and>
   distinct [0::nat, 1, 2, 3, 4] \<and>
   length [''O'', ''B-PER'', ''I-PER'', ''O'', ''B-LOC''] = length [0::nat, 1, 2, 3, 4] \<and>
   iob_result
     (store_of [\<lparr>span_start = 0, span_end = 1\<rparr>, \<lparr>span_start = 2, span_end = 5\<rparr>,
                \<lparr>span_start = 6, span_end = 9\<rparr>, \<lparr>span_start = 10, span_end = 11\<rparr>,
                \<lparr>span_start = 12, span_end = 15\<rparr>])
     [''O'', ''B-PER'', ''I-PER'', ''O'', ''B-LOC''] [0, 1, 2, 3, 4] =
   Inr ([''PER'', ''LOC''], [\<lparr>span_start = 2, span_end = 9\<rparr>, \<lparr>span_start = 12, span_end = 15\<rparr>])"
proof -
  let ?P = "[''O'', ''B-PER'', ''I-PER'', ''O'', ''B-LOC'']"
  let ?S = "[0::nat, 1, 2, 3, 4]"
  let ?H = "store_of [\<lparr>span_start = 0, span_end = 1\<rparr>, \<lparr>span_start = 2, span_end = 5\<rparr>,
                \<lparr>span_start = 6, span_end = 9\<rparr>, \<lparr>span_start = 10, span_end = 11\<rparr>,
                \<lparr>span_start = 12, span_end = 15\<rparr>]"
  have p: "list_all plain_iob_tag ?P" by (simp add: plain_iob_tag_def)
  have d: "distinct ?S" by simp
  have l: "length ?P = length ?S" by simp
  have m: "merge_iob_spans ?P (map ?H ?S) =
      ([''PER'', ''LOC''], [\<lparr>span_start = 2, span_end = 9\<rparr>, \<lparr>span_start = 12, span_end = 15\<rparr>])"
    by (simp add: merge_iob_spans_def spec_token_of_def store_of_def)
  from convert_iob_refines_spec[OF p d l, of ?H] show ?thesis
    unfolding m using p d l by simp
qed

text \<open>
  C8.  The claim: the three operations have no side effects, and the merge leaves its
  input tags and every field of its input spans unchanged.  The merge does not:
  \<^verbatim>\<open>cur_span = span\<close> keeps the caller's object and \<^verbatim>\<open>cur_span["end"] = span["end"]\<close>
  writes into it, so after the call the first span of an entity of several tokens has the
  end of the last one.
\<close>

theorem convert_iob_changes_input_span:
  "spans_after (store_of [\<lparr>span_start = 0, span_end = 1\<rparr>, \<lparr>span_start = 2, span_end = 5\<rparr>])
     [''B-PER'', ''I-PER''] [0, 1] \<noteq>
   Inr (map (store_of [\<lparr>span_start = 0, span_end = 1\<rparr>, \<lparr>span_start = 2, span_end = 5\<rparr>]) [0, 1])"
proof -
  have "spans_after (store_of [\<lparr>span_start = 0, span_end = 1\<rparr>, \<lparr>span_start = 2, span_end = 5\<rparr>])
     [''B-PER'', ''I-PER''] [0, 1] =
     Inr [\<lparr>span_start = 0, span_end = 5\<rparr>, \<lparr>span_start = 2, span_end = 5\<rparr>]"
    by (simp add: spans_after_def convert_iob_to_simple_tags_def iob_run_def iob_init_def
        iob_step_def iob_finish_def append_current_def store_of_def)
  then show ?thesis by (simp add: store_of_def)
qed

text \<open>
  C8, as amended.  The merge always returns.  The span objects it returns are among those
  it was given; every object it does not return is after the call as it was before; and
  the \<^verbatim>\<open>start\<close> of every object is unchanged.  The objects it returns it does write: when
  every tag is \<^verbatim>\<open>O\<close>, \<^verbatim>\<open>B-<TYPE>\<close> or \<^verbatim>\<open>I-<TYPE>\<close> with a type name that contains neither
  \<^verbatim>\<open>B-\<close> nor \<^verbatim>\<open>I-\<close>, and the spans are as many distinct objects, each returned object
  holds after the call the merged span of its entity, as the machine of the specification
  computes it from what the spans held before the call: the \<^verbatim>\<open>start\<close> of the token that
  opened the entity and the \<^verbatim>\<open>end\<close> of the last token merged into it.
\<close>

theorem convert_iob_frame:
  "\<exists>tags ms h'.
     convert_iob_to_simple_tags h preds spans = Inr (tags, ms, h') \<and>
     set ms \<subseteq> set spans \<and>
     (\<forall>a. a \<notin> set ms \<longrightarrow> h' a = h a) \<and>
     (\<forall>a. span_start (h' a) = span_start (h a)) \<and>
     (list_all plain_iob_tag preds \<and> distinct spans \<and> length preds = length spans \<longrightarrow>
        map h' ms = snd (merge_iob_spans preds (map h spans)))"
proof -
  from convert_iob_returns[of h preds spans] obtain st'
    where run: "iob_run (iob_init h) (zip preds spans) = Inr st'"
    and res: "convert_iob_to_simple_tags h preds spans =
           Inr (simple_tags st', merged_spans st', objects st')" by blast
  note F = iob_run_frame[OF cur_bound_init run]
  have init: "merged_spans (iob_init h) = []" "objects (iob_init h) = h" "\<not> open_tag (iob_init h)"
    by (simp_all add: iob_init_def)
  from F[THEN conjunct1] have f1: "\<forall>a. span_start (objects st' a) = span_start (h a)"
    by (simp add: init)
  from F[THEN conjunct2, THEN conjunct1]
  have f2: "\<forall>a. a \<notin> set (merged_spans st') \<longrightarrow> objects st' a = h a"
    unfolding init by blast
  from F[THEN conjunct2, THEN conjunct2, THEN conjunct2, THEN conjunct2]
  have "set (merged_spans st') \<subseteq> snd ` set (zip preds spans)" by (simp add: init)
  moreover have "snd ` set (zip preds spans) \<subseteq> set spans" by (auto dest: set_zip_rightD)
  ultimately have f3: "set (merged_spans st') \<subseteq> set spans" by blast
  have f4: "list_all plain_iob_tag preds \<and> distinct spans \<and> length preds = length spans \<longrightarrow>
      map (objects st') (merged_spans st') = snd (merge_iob_spans preds (map h spans))"
    using convert_iob_merged_contents[OF _ _ _ run] by blast
  from res f1 f2 f3 f4 show ?thesis by blast
qed

theorem convert_iob_frame_witness:
  "\<exists>tags ms h'.
     convert_iob_to_simple_tags
       (store_of [\<lparr>span_start = 0, span_end = 1\<rparr>, \<lparr>span_start = 2, span_end = 5\<rparr>])
       [''B-PER'', ''I-PER''] [0, 1] = Inr (tags, ms, h') \<and>
     tags = [''PER''] \<and> ms = [0] \<and>
     list_all plain_iob_tag [''B-PER'', ''I-PER''] \<and> distinct [0::nat, 1] \<and>
     length [''B-PER'', ''I-PER''] = length [0::nat, 1] \<and>
     h' 0 = \<lparr>span_start = 0, span_end = 5\<rparr> \<and>
     h' 1 = \<lparr>span_start = 2, span_end = 5\<rparr>"
proof -
  let ?H = "store_of [\<lparr>span_start = 0, span_end = 1\<rparr>, \<lparr>span_start = 2, span_end = 5\<rparr>]"
  let ?P = "[''B-PER'', ''I-PER'']"
  let ?S = "[0::nat, 1]"
  from convert_iob_frame[of ?H ?P ?S]
  obtain tags ms h' where
    res: "convert_iob_to_simple_tags ?H ?P ?S = Inr (tags, ms, h')"
    and same: "\<forall>a. a \<notin> set ms \<longrightarrow> h' a = ?H a"
    and written: "list_all plain_iob_tag ?P \<and> distinct ?S \<and> length ?P = length ?S \<longrightarrow>
        map h' ms = snd (merge_iob_spans ?P (map ?H ?S))" by blast
  have p: "list_all plain_iob_tag ?P" by (simp add: plain_iob_tag_def)
  have d: "distinct ?S" by simp
  have l: "length ?P = length ?S" by simp
  have m: "merge_iob_spans ?P (map ?H ?S) = ([''PER''], [\<lparr>span_start = 0, span_end = 5\<rparr>])"
    by (simp add: merge_iob_spans_def spec_token_of_def store_of_def)
  have "\<exists>g. convert_iob_to_simple_tags ?H ?P ?S = Inr ([''PER''], [0], g)"
    by (simp add: convert_iob_to_simple_tags_def iob_run_def iob_init_def
        iob_step_def iob_finish_def append_current_def)
  with res have tm: "tags = [''PER'']" "ms = [0]" by auto
  from written p d l have "map h' ms = snd (merge_iob_spans ?P (map ?H ?S))" by blast
  then have h0: "h' 0 = \<lparr>span_start = 0, span_end = 5\<rparr>" unfolding m tm by simp
  from same tm have "h' 1 = ?H 1" by simp
  then have h1: "h' 1 = \<lparr>span_start = 2, span_end = 5\<rparr>" by (simp add: store_of_def)
  from res tm p d l h0 h1 show ?thesis by blast
qed

text \<open>
  C9.  For every pair of input sequences the merge returns two lists of the same length,
  and the tag and the span at the same position come from one token: a token whose tag
  contains \<^verbatim>\<open>B-\<close>, the returned tag being that tag without \<^verbatim>\<open>B-\<close> and the returned
  span being that token's span object.
\<close>

theorem convert_iob_aligned:
  "\<exists>tags ms h'.
     convert_iob_to_simple_tags h preds spans = Inr (tags, ms, h') \<and>
     length tags = length ms \<and>
     (\<forall>(t, a)\<in>set (zip tags ms).
        \<exists>p. (p, a) \<in> set (zip preds spans) \<and> py_in ''B-'' p \<and> t = py_remove ''B-'' p)"
proof -
  let ?Q = "\<lambda>t a. \<exists>p. (p, a) \<in> set (zip preds spans) \<and> py_in ''B-'' p \<and> t = py_remove ''B-'' p"
  from convert_iob_returns[of h preds spans] obtain st'
    where run: "iob_run (iob_init h) (zip preds spans) = Inr st'"
    and res: "convert_iob_to_simple_tags h preds spans =
           Inr (simple_tags st', merged_spans st', objects st')" by blast
  have a1: "length (simple_tags (iob_init h)) = length (merged_spans (iob_init h))"
    by (simp add: iob_init_def)
  have a2: "\<forall>(t, b)\<in>set (zip (simple_tags (iob_init h)) (merged_spans (iob_init h))). ?Q t b"
    by (simp add: iob_init_def)
  have a3: "\<forall>t c. open_tag (iob_init h) \<longrightarrow> cur_tag (iob_init h) = Some t \<longrightarrow>
      cur_span (iob_init h) = Some c \<longrightarrow> ?Q t c"
    by (simp add: iob_init_def)
  have a4: "\<forall>(p, a)\<in>set (zip preds spans). py_in ''B-'' p \<longrightarrow> ?Q (py_remove ''B-'' p) a"
    by blast
  from iob_run_aligned[of "iob_init h" "zip preds spans" st' ?Q, OF cur_bound_init run a1 a2 a3 a4]
    res show ?thesis by blast
qed

theorem convert_iob_aligned_witness:
  "\<exists>tags ms h'.
     convert_iob_to_simple_tags
       (store_of [\<lparr>span_start = 0, span_end = 1\<rparr>, \<lparr>span_start = 2, span_end = 5\<rparr>,
                  \<lparr>span_start = 6, span_end = 9\<rparr>])
       [''I-PER'', ''B-PER'', ''B-LOC''] [0, 1, 2] = Inr (tags, ms, h') \<and>
     tags = [''PER'', ''LOC''] \<and> ms = [1, 2] \<and> length tags = length ms \<and>
     (''B-PER'', 1) \<in> set (zip [''I-PER'', ''B-PER'', ''B-LOC''] [0::nat, 1, 2]) \<and>
     py_in ''B-'' ''B-PER'' \<and> ''PER'' = py_remove ''B-'' ''B-PER''"
proof -
  let ?H = "store_of [\<lparr>span_start = 0, span_end = 1\<rparr>, \<lparr>span_start = 2, span_end = 5\<rparr>,
                  \<lparr>span_start = 6, span_end = 9\<rparr>]"
  from convert_iob_aligned[of ?H "[''I-PER'', ''B-PER'', ''B-LOC'']" "[0, 1, 2]"]
  obtain tags ms h' where
    res: "convert_iob_to_simple_tags ?H [''I-PER'', ''B-PER'', ''B-LOC''] [0, 1, 2] = Inr (tags, ms, h')"
    and len: "length tags = length ms" by blast
  have "\<exists>g. convert_iob_to_simple_tags ?H [''I-PER'', ''B-PER'', ''B-LOC''] [0, 1, 2] =
      Inr ([''PER'', ''LOC''], [1, 2], g)"
    by (simp add: convert_iob_to_simple_tags_def iob_run_def iob_init_def
        iob_step_def iob_finish_def append_current_def)
  with res have tm: "tags = [''PER'', ''LOC'']" "ms = [1, 2]" by auto
  have ev: "(''B-PER'', 1) \<in> set (zip [''I-PER'', ''B-PER'', ''B-LOC''] [0::nat, 1, 2]) \<and>
     py_in ''B-'' ''B-PER'' \<and> ''PER'' = py_remove ''B-'' ''B-PER''" by simp
  from res tm len ev show ?thesis by blast
qed


end
